theory Spec2Isabelle
  imports Complex_Main "HOL-Library.AList" "HOL-Library.Sublist"
begin

section \<open>Retry engine, circuit breakers and batch scraper of ableAway\<close>

text \<open>
  The development embeds \<^verbatim>\<open>retry.ts\<close> (classes \<^verbatim>\<open>RetryManager\<close> and
  \<^verbatim>\<open>CircuitBreaker\<close>), the two wrappers of \<^verbatim>\<open>worker.ts\<close> and
  \<^verbatim>\<open>ParallelScraper\<close> of \<^verbatim>\<open>scraper.ts\<close>.

  Conventions of the embedding:
  \<^item> a JavaScript \<^verbatim>\<open>number\<close> that counts (attempts, failures) is a \<open>nat\<close>, a time in
    milliseconds is an \<open>int\<close>, and the delays of the configuration are \<open>real\<close> numbers
    (exact arithmetic in place of IEEE doubles);
  \<^item> \<^verbatim>\<open>Date.now()\<close>, \<^verbatim>\<open>Math.random()\<close> and \<^verbatim>\<open>setTimeout\<close> act on an explicit
    \<open>world\<close>; an asynchronous operation is a function from the world to an outcome and a
    new world, and the items of one concurrency window run one after the other in the
    order of the window;
  \<^item> a thrown value is the left injection of a sum;
  \<^item> the field \<open>trace\<close> of the state is a ghost log of the calls made to the supplied
    operations and to the storage; the code has no such field.
\<close>

subsection \<open>Strings\<close>

text \<open>\<^verbatim>\<open>s.includes(t)\<close>: the string \<open>t\<close> occurs in \<open>s\<close> as a contiguous substring.\<close>

primrec str_includes :: "string \<Rightarrow> string \<Rightarrow> bool" where
  "str_includes [] t = (t = [])"
| "str_includes (c # cs) t = (prefix t (c # cs) \<or> str_includes cs t)"

text \<open>Decimal rendering of a number in a template literal.\<close>

fun string_of_nat :: "nat \<Rightarrow> string" where
  "string_of_nat n =
     (if n < 10 then [''0123456789'' ! n]
      else string_of_nat (n div 10) @ [''0123456789'' ! (n mod 10)])"

declare string_of_nat.simps [simp del]

subsection \<open>Errors\<close>

datatype ErrorType =
    NETWORK_ERROR | TIMEOUT_ERROR | PARSING_ERROR
  | AI_EXTRACTION_ERROR | BROWSER_ERROR | UNKNOWN_ERROR

text \<open>The string value of each member of the enum.\<close>

fun ErrorType_value :: "ErrorType \<Rightarrow> string" where
  "ErrorType_value NETWORK_ERROR = ''network_error''"
| "ErrorType_value TIMEOUT_ERROR = ''timeout_error''"
| "ErrorType_value PARSING_ERROR = ''parsing_error''"
| "ErrorType_value AI_EXTRACTION_ERROR = ''ai_extraction_error''"
| "ErrorType_value BROWSER_ERROR = ''browser_error''"
| "ErrorType_value UNKNOWN_ERROR = ''unknown_error''"

text \<open>
  A value thrown by an operation, seen through its properties.
  \<^item> \<^verbatim>\<open>code\<close> and \<^verbatim>\<open>name\<close>, which the classifier compares with string constants:
    \<open>None\<close> when the property is absent or not a string.
  \<^item> \<^verbatim>\<open>message\<close>: \<open>None\<close> when the property is absent. A message that is present is a
    string, as it is for every \<^verbatim>\<open>Error\<close> and for every error that the operations of
    \<^verbatim>\<open>worker.ts\<close> let through (their own \<^verbatim>\<open>catch\<close> blocks call
    \<^verbatim>\<open>error.message.includes\<close>).
  \<^item> \<^verbatim>\<open>status\<close>, the HTTP status that an error of the extraction service carries and
    that \<^verbatim>\<open>worker.ts\<close> reads: \<open>None\<close> when absent. The classifier never reads it.
  \<^item> \<^verbatim>\<open>errorType\<close> and \<^verbatim>\<open>retryable\<close>, the fields of class \<^verbatim>\<open>RetryableError\<close>, which
    the code reads only from a value whose name is \<^verbatim>\<open>"RetryableError"\<close>.
  The field \<^verbatim>\<open>originalError\<close> of the class is never read and is left out.
\<close>

record raw_error =
  code :: "string option"
  name :: "string option"
  message :: "string option"
  status :: "nat option"
  errorType :: ErrorType
  retryable :: bool

text \<open>\<^verbatim>\<open>new RetryableError(errorType, message, originalError, retryable)\<close>.\<close>

definition RetryableError :: "ErrorType \<Rightarrow> string \<Rightarrow> bool \<Rightarrow> raw_error" where
  "RetryableError t m r =
     \<lparr>code = None, name = Some ''RetryableError'', message = Some m, status = None,
      errorType = t, retryable = r\<rparr>"

text \<open>
  Interface \<^verbatim>\<open>DetailedError\<close>. The timestamp is the instant read from the clock, in
  place of its ISO rendering.
\<close>

record DetailedError =
  e_type :: ErrorType
  e_message :: string
  originalError :: raw_error
  attempt :: nat
  e_url :: string
  e_timestamp :: int
  e_retryable :: bool

text \<open>What \<^verbatim>\<open>executeWithRetry\<close> throws: a \<^verbatim>\<open>RetryableError\<close> or a \<^verbatim>\<open>DetailedError\<close>.\<close>

datatype thrown = ThrowError raw_error | ThrowDetailed DetailedError

record RetryConfig =
  maxAttempts :: nat
  baseDelay :: real
  maxDelay :: real
  backoffMultiplier :: real
  jitter :: bool

text \<open>The defaults of the constructor of \<^verbatim>\<open>RetryManager\<close>.\<close>

definition defaultConfig :: RetryConfig where
  "defaultConfig =
     \<lparr>maxAttempts = 3, baseDelay = 1000, maxDelay = 30000,
      backoffMultiplier = 2, jitter = True\<rparr>"

subsection \<open>The world\<close>

record world =
  clock :: int
  random_seq :: "nat \<Rightarrow> real"
  random_idx :: nat

text \<open>\<^verbatim>\<open>Math.random()\<close>: the next number of the sequence.\<close>

definition Math_random :: "world \<Rightarrow> real \<times> world" where
  "Math_random w = (random_seq w (random_idx w), w\<lparr>random_idx := random_idx w + 1\<rparr>)"

text \<open>\<^verbatim>\<open>await this.sleep(ms)\<close>: the clock advances by the delay.\<close>

definition sleep :: "int \<Rightarrow> world \<Rightarrow> world" where
  "sleep ms w = w\<lparr>clock := clock w + ms\<rparr>"

subsection \<open>Class CircuitBreaker\<close>

record CircuitBreaker =
  failures :: nat
  successes :: nat
  lastFailureTime :: int

definition failureThreshold :: nat where
  "failureThreshold = 5"

definition resetTimeout :: int where
  "resetTimeout = 60000"

definition new_CircuitBreaker :: CircuitBreaker where
  "new_CircuitBreaker = \<lparr>failures = 0, successes = 0, lastFailureTime = 0\<rparr>"

definition recordFailure :: "int \<Rightarrow> CircuitBreaker \<Rightarrow> CircuitBreaker" where
  "recordFailure now cb = cb\<lparr>failures := failures cb + 1, lastFailureTime := now\<rparr>"

definition recordSuccess :: "CircuitBreaker \<Rightarrow> CircuitBreaker" where
  "recordSuccess cb = cb\<lparr>successes := successes cb + 1, failures := 0\<rparr>"

text \<open>
  \<^verbatim>\<open>isOpen()\<close> reads the clock (the argument \<open>now\<close>) and returns its verdict together
  with the breaker, which the auto-reset branch changes.
\<close>

definition isOpen :: "int \<Rightarrow> CircuitBreaker \<Rightarrow> bool \<times> CircuitBreaker" where
  "isOpen now cb =
     (if failures cb < failureThreshold then (False, cb)
      else if now - lastFailureTime cb > resetTimeout then (False, cb\<lparr>failures := 0\<rparr>)
      else (True, cb))"

definition getFailureCount :: "CircuitBreaker \<Rightarrow> nat" where
  "getFailureCount cb = failures cb"

definition getSuccessCount :: "CircuitBreaker \<Rightarrow> nat" where
  "getSuccessCount cb = successes cb"

subsection \<open>Class RetryManager: classification and delay\<close>

text \<open>
  \<^verbatim>\<open>categorizeError(error, url, attempt, context)\<close>; the last argument is the clock at
  the call.
\<close>

definition categorizeError ::
  "raw_error \<Rightarrow> string \<Rightarrow> nat \<Rightarrow> string \<Rightarrow> int \<Rightarrow> DetailedError" where
  "categorizeError error url' attempt' context now =
     (let msg = (case message error of
                   None \<Rightarrow> ''Unknown error''
                 | Some m \<Rightarrow> if m = [] then ''Unknown error'' else m);
          (ty, rt) =
            (if code error = Some ''ENOTFOUND'' \<or> code error = Some ''ECONNREFUSED''
               then (NETWORK_ERROR, True)
             else if code error = Some ''ETIMEDOUT'' \<or> str_includes msg ''timeout''
               then (TIMEOUT_ERROR, True)
             else if name error = Some ''TimeoutError'' \<or> str_includes msg ''Navigation timeout''
               then (BROWSER_ERROR, True)
             else if str_includes msg ''JSON'' \<or> str_includes msg ''parse''
               then (PARSING_ERROR, True)
             else if str_includes context ''extract'' \<or> str_includes msg ''AI'' \<or> str_includes msg ''OpenAI''
               then (AI_EXTRACTION_ERROR, True)
             else if name error = Some ''RetryableError''
               then (errorType error, retryable error)
             else (UNKNOWN_ERROR, True));
          rt' = (if str_includes msg ''401'' \<or> str_includes msg ''403'' \<or> str_includes msg ''404''
                 then False else rt)
      in \<lparr>e_type = ty, e_message = msg, originalError = error, attempt = attempt',
          e_url = url', e_timestamp = now, e_retryable = rt'\<rparr>)"

text \<open>
  The value of the variable \<^verbatim>\<open>delay\<close> of \<^verbatim>\<open>calculateDelay\<close> after \<^verbatim>\<open>Math.min\<close> and
  before the jitter. The method is called with \<open>attempt \<ge> 1\<close> only.
\<close>

definition computedDelay :: "RetryConfig \<Rightarrow> nat \<Rightarrow> real" where
  "computedDelay cfg attempt' =
     min (baseDelay cfg * backoffMultiplier cfg ^ (attempt' - 1)) (maxDelay cfg)"

definition calculateDelay :: "RetryConfig \<Rightarrow> nat \<Rightarrow> world \<Rightarrow> int \<times> world" where
  "calculateDelay cfg attempt' w =
     (let delay = computedDelay cfg attempt';
          (delay', w') =
            (if jitter cfg
             then (let (r, w1) = Math_random w in (delay * (0.5 + r * 0.5), w1))
             else (delay, w))
      in (\<lfloor>delay'\<rfloor>, w'))"

text \<open>
  \<^verbatim>\<open>extractDomain(url)\<close>. The parser of the platform, \<^verbatim>\<open>new URL(url).hostname\<close>, is the
  parameter \<open>hostname\<close>: it gives \<open>None\<close> where the constructor throws.
\<close>

definition extractDomain :: "(string \<Rightarrow> string option) \<Rightarrow> string \<Rightarrow> string" where
  "extractDomain hostname url' =
     (case hostname url' of Some h \<Rightarrow> h | None \<Rightarrow> ''unknown'')"

subsection \<open>The state\<close>

text \<open>
  Ghost events: the supplied operation was invoked by \<^verbatim>\<open>executeWithRetry\<close> under a key,
  \<^verbatim>\<open>processUrl\<close> returned the result of an item, \<^verbatim>\<open>insertHotel\<close> was called for an
  item, the run paused between two batches.
\<close>

datatype event = Invoked string | Processed string | Inserted string | Paused

text \<open>
  The map \<^verbatim>\<open>circuitBreakers\<close> of the one \<^verbatim>\<open>RetryManager\<close> of \<^verbatim>\<open>worker.ts\<close>, as an
  association list in insertion order, the world, the storage of the scraper (of a type
  left open) and the ghost log.
\<close>

record 'st state =
  circuitBreakers :: "(string \<times> CircuitBreaker) list"
  world :: world
  storage :: 'st
  trace :: "event list"

text \<open>
  \<^verbatim>\<open>getCircuitBreaker(domain)\<close>: the breaker of the domain and the map, to which a fresh
  breaker is appended when the domain is new.
\<close>

definition getCircuitBreaker ::
  "string \<Rightarrow> (string \<times> CircuitBreaker) list
     \<Rightarrow> CircuitBreaker \<times> (string \<times> CircuitBreaker) list" where
  "getCircuitBreaker domain cbs =
     (case map_of cbs domain of
        None \<Rightarrow> (new_CircuitBreaker, cbs @ [(domain, new_CircuitBreaker)])
      | Some cb \<Rightarrow> (cb, cbs))"

text \<open>A method call on the breaker object that the map holds for a domain.\<close>

definition on_breaker ::
  "string \<Rightarrow> (CircuitBreaker \<Rightarrow> CircuitBreaker) \<Rightarrow> 'st state \<Rightarrow> 'st state" where
  "on_breaker domain f s =
     s\<lparr>circuitBreakers := AList.map_entry domain f (circuitBreakers s)\<rparr>"

subsection \<open>Class RetryManager: executeWithRetry and getStats\<close>

text \<open>
  The \<^verbatim>\<open>for\<close> loop of \<^verbatim>\<open>executeWithRetry\<close>, from the attempt \<open>attempt'\<close> on, with the
  statement after the loop. A \<^verbatim>\<open>break\<close> reaches that statement with \<^verbatim>\<open>lastError\<close> set to
  the error just classified, which is then thrown.
\<close>

function attempt_loop ::
  "RetryConfig \<Rightarrow> (world \<Rightarrow> (raw_error + 'a) \<times> world) \<Rightarrow> string \<Rightarrow> string \<Rightarrow> string
     \<Rightarrow> nat \<Rightarrow> DetailedError option \<Rightarrow> 'st state \<Rightarrow> (thrown + 'a) \<times> 'st state" where
  "attempt_loop cfg operation url' context domain attempt' lastError s =
     (if attempt' \<le> maxAttempts cfg then
        (case operation (world s) of
           (Inr result, w) \<Rightarrow>
             (Inr result,
              on_breaker domain recordSuccess
                (s\<lparr>world := w, trace := trace s @ [Invoked url']\<rparr>))
         | (Inl error, w) \<Rightarrow>
             (let detailedError = categorizeError error url' attempt' context (clock w);
                  s1 = on_breaker domain (recordFailure (clock w))
                         (s\<lparr>world := w, trace := trace s @ [Invoked url']\<rparr>)
              in if \<not> e_retryable detailedError \<or> attempt' = maxAttempts cfg
                 then (Inl (ThrowDetailed detailedError), s1)
                 else (let (delay, w') = calculateDelay cfg attempt' (world s1)
                       in attempt_loop cfg operation url' context domain (attempt' + 1)
                            (Some detailedError) (s1\<lparr>world := sleep delay w'\<rparr>))))
      else
        (Inl (case lastError of
                Some d \<Rightarrow> ThrowDetailed d
              | None \<Rightarrow> ThrowError (RetryableError UNKNOWN_ERROR
                                     ''All retry attempts failed'' False)),
         s))"
  by pat_completeness auto
termination
  by (relation "measure (\<lambda>(cfg, operation, url', context, domain, attempt', lastError, s).
                  maxAttempts cfg + 1 - attempt')") auto

declare attempt_loop.simps [simp del]

definition executeWithRetry ::
  "(string \<Rightarrow> string option) \<Rightarrow> RetryConfig \<Rightarrow> (world \<Rightarrow> (raw_error + 'a) \<times> world)
     \<Rightarrow> string \<Rightarrow> string \<Rightarrow> 'st state \<Rightarrow> (thrown + 'a) \<times> 'st state" where
  "executeWithRetry hostname cfg operation url' context s =
     (let domain = extractDomain hostname url';
          (circuitBreaker, cbs) = getCircuitBreaker domain (circuitBreakers s);
          (open', circuitBreaker') = isOpen (clock (world s)) circuitBreaker;
          s0 = s\<lparr>circuitBreakers := AList.update domain circuitBreaker' cbs\<rparr>
      in if open'
         then (Inl (ThrowError (RetryableError NETWORK_ERROR
                      (''Circuit breaker is open for domain '' @ domain) False)), s0)
         else attempt_loop cfg operation url' context domain 1 None s0)"

record DomainStats =
  domain :: string
  stat_failures :: nat
  stat_successes :: nat
  stat_isOpen :: bool

record RetryStats =
  domains :: "DomainStats list"
  totalDomains :: nat
  openCircuits :: nat

text \<open>
  \<^verbatim>\<open>getStats()\<close>: for each entry of the map, the failure count is read first and
  \<^verbatim>\<open>isOpen()\<close> is called last, on the breaker object itself.
\<close>

definition getStats :: "'st state \<Rightarrow> RetryStats \<times> 'st state" where
  "getStats s =
     (let now = clock (world s);
          stats = map (\<lambda>(d, cb).
                    \<lparr>domain = d, stat_failures = getFailureCount cb,
                     stat_successes = getSuccessCount cb,
                     stat_isOpen = fst (isOpen now cb)\<rparr>) (circuitBreakers s)
      in (\<lparr>domains = stats, totalDomains = length stats,
           openCircuits = length (filter stat_isOpen stats)\<rparr>,
          s\<lparr>circuitBreakers := map (\<lambda>(d, cb). (d, snd (isOpen now cb))) (circuitBreakers s)\<rparr>))"

subsection \<open>worker.ts\<close>

record AccessibilityFeatures =
  wheelchairAccessible :: bool
  accessibleBathroom :: bool
  elevator :: bool
  brailleSignage :: bool
  publicTransitNearby :: bool

text \<open>The configuration of the \<^verbatim>\<open>RetryManager\<close> of \<^verbatim>\<open>worker.ts\<close>.\<close>

definition workerConfig :: RetryConfig where
  "workerConfig =
     \<lparr>maxAttempts = 3, baseDelay = 1000, maxDelay = 15000,
      backoffMultiplier = 2, jitter = True\<rparr>"

text \<open>
  What the scraper is given from outside: the URL parser of the platform, the two
  asynchronous operations that \<^verbatim>\<open>worker.ts\<close> hands to \<^verbatim>\<open>executeWithRetry\<close> (the page
  fetch for a URL and the extraction for a page text, \<open>None\<close> being \<^verbatim>\<open>null\<close>), and the
  two methods of the storage (\<open>None\<close> from \<open>insertHotel\<close> being a thrown error).
\<close>

record HotelRecord =
  h_url :: string
  scrapedAt :: int
  accessibilityFeatures :: AccessibilityFeatures

record 'st env =
  hostname_of :: "string \<Rightarrow> string option"
  scrapeOperation :: "string \<Rightarrow> world \<Rightarrow> (raw_error + string) \<times> world"
  extractOperation ::
    "string \<Rightarrow> world \<Rightarrow> (raw_error + AccessibilityFeatures option) \<times> world"
  urlExists :: "'st \<Rightarrow> string \<Rightarrow> bool"
  insertHotel :: "HotelRecord \<Rightarrow> 'st \<Rightarrow> nat option \<times> 'st"

definition scrapeUrl ::
  "'st env \<Rightarrow> string \<Rightarrow> 'st state \<Rightarrow> (thrown + string) \<times> 'st state" where
  "scrapeUrl env url' s =
     executeWithRetry (hostname_of env) workerConfig (scrapeOperation env url')
       url' ''scraping'' s"

definition extractFeatures ::
  "'st env \<Rightarrow> string \<Rightarrow> 'st state
     \<Rightarrow> (thrown + AccessibilityFeatures option) \<times> 'st state" where
  "extractFeatures env text' s =
     executeWithRetry (hostname_of env) workerConfig (extractOperation env text')
       ''AI-extraction'' ''feature extraction'' s"

definition getRetryStats :: "'st state \<Rightarrow> RetryStats \<times> 'st state" where
  "getRetryStats s = getStats s"

subsection \<open>scraper.ts\<close>

record ScrapeResult =
  url :: string
  success :: bool
  data :: "AccessibilityFeatures option"
  error :: "string option"
  timestamp :: int

text \<open>The \<^verbatim>\<open>catch\<close> block of \<^verbatim>\<open>processUrl\<close>: the error message of a failed item.\<close>

definition errorMessage_of :: "thrown \<Rightarrow> string" where
  "errorMessage_of err =
     (case err of
        ThrowDetailed d \<Rightarrow>
          (if e_message d \<noteq> [] then
             ErrorType_value (e_type d) @ '': '' @ e_message d @
             (if attempt d \<noteq> 0
              then '' (failed after '' @ string_of_nat (attempt d) @ '' attempts)''
              else [])
           else ''Unknown error'')
      | ThrowError e \<Rightarrow> (case message e of Some m \<Rightarrow> m | None \<Rightarrow> []))"

definition failed_result :: "string \<Rightarrow> int \<Rightarrow> string \<Rightarrow> ScrapeResult" where
  "failed_result url' timestamp' msg =
     \<lparr>url = url', success = False, data = None, error = Some msg, timestamp = timestamp'\<rparr>"

text \<open>\<^verbatim>\<open>processUrl(url, workerId)\<close>; the worker number is used in log lines only.\<close>

definition processUrl ::
  "'st env \<Rightarrow> string \<Rightarrow> nat \<Rightarrow> 'st state \<Rightarrow> ScrapeResult \<times> 'st state" where
  "processUrl env url' workerId s =
     (let timestamp' = clock (world s);
          (result, s') =
            (case scrapeUrl env url' s of
               (Inl err, s1) \<Rightarrow> (failed_result url' timestamp' (errorMessage_of err), s1)
             | (Inr html, s1) \<Rightarrow>
                 (case extractFeatures env html s1 of
                    (Inl err, s2) \<Rightarrow>
                      (failed_result url' timestamp' (errorMessage_of err), s2)
                  | (Inr None, s2) \<Rightarrow>
                      (failed_result url' timestamp'
                         ''Failed to extract accessibility features'', s2)
                  | (Inr (Some features), s2) \<Rightarrow>
                      (\<lparr>url = url', success = True, data = Some features, error = None,
                        timestamp = timestamp'\<rparr>, s2)))
      in (result, s'\<lparr>trace := trace s' @ [Processed url']\<rparr>))"

text \<open>
  \<^verbatim>\<open>batch.map((url, index) => this.processUrl(url, (i + index) % this.maxConcurrent))\<close>
  followed by \<^verbatim>\<open>await Promise.all(batchPromises)\<close>: no promise rejects, so the results
  come in the order of the batch.

  The code starts every item of the batch before any of them completes, and the attempts
  of the items interleave as their operations complete. Here the items run to completion
  one after the other, in the order of the batch. What follows does not depend on the
  interleaving: the URLs of the results and their order, the keys under which operations
  are invoked, and the calls of \<^verbatim>\<open>insertHotel\<close>, which are made after \<^verbatim>\<open>Promise.all\<close>. What
  does depend on it, and is that of this one schedule only: the timestamps of the
  results (all taken at the start of the batch in the code), the state in which an item
  finds a breaker that it shares with an earlier item of its batch, hence the outcome
  and the number of invocations of such an item, and the order in which the items
  complete.
\<close>

primrec processBatch ::
  "'st env \<Rightarrow> nat \<Rightarrow> nat \<Rightarrow> nat \<Rightarrow> string list \<Rightarrow> 'st state
     \<Rightarrow> ScrapeResult list \<times> 'st state" where
  "processBatch env maxConcurrent i index [] s = ([], s)"
| "processBatch env maxConcurrent i index (u # us) s =
     (let (r, s1) = processUrl env u ((i + index) mod maxConcurrent) s;
          (rs, s2) = processBatch env maxConcurrent i (index + 1) us s1
      in (r # rs, s2))"

text \<open>
  The loop \<^verbatim>\<open>for (const result of batchResults)\<close> that saves the successful results;
  both the \<^verbatim>\<open>try\<close> and the \<^verbatim>\<open>catch\<close> branch only write a log line.
\<close>

primrec saveResults :: "'st env \<Rightarrow> ScrapeResult list \<Rightarrow> 'st state \<Rightarrow> 'st state" where
  "saveResults env [] s = s"
| "saveResults env (result # rest) s =
     saveResults env rest
       (case data result of
          Some features \<Rightarrow>
            (if success result then
               (let record' = \<lparr>h_url = url result, scrapedAt = timestamp result,
                               accessibilityFeatures = features\<rparr>;
                    (id', st) = insertHotel env record' (storage s)
                in s\<lparr>storage := st, trace := trace s @ [Inserted (url result)]\<rparr>)
             else s)
        | None \<Rightarrow> s)"

text \<open>
  The body of the loop over the batches: the batch is processed, its results are pushed
  and saved, and the run pauses when more batches remain.
\<close>

definition batch_step ::
  "'st env \<Rightarrow> nat \<Rightarrow> string list \<Rightarrow> nat \<Rightarrow> ScrapeResult list \<Rightarrow> 'st state
     \<Rightarrow> ScrapeResult list \<times> 'st state" where
  "batch_step env maxConcurrent newUrls i results s =
     (let batch = take maxConcurrent (drop i newUrls);
          (batchResults, s1) = processBatch env maxConcurrent i 0 batch s;
          s2 = saveResults env batchResults s1;
          s3 = (if i + maxConcurrent < length newUrls
                then s2\<lparr>world := sleep 1000 (world s2), trace := trace s2 @ [Paused]\<rparr>
                else s2)
      in (results @ batchResults, s3))"

text \<open>
  The loop \<^verbatim>\<open>for (let i = 0; i < newUrls.length; i += this.maxConcurrent)\<close>. It does not
  end when \<open>maxConcurrent\<close> is 0 and a URL is left; not returning is the value \<open>None\<close>.
\<close>

partial_function (option) batch_loop ::
  "'st env \<Rightarrow> nat \<Rightarrow> string list \<Rightarrow> nat \<Rightarrow> ScrapeResult list \<Rightarrow> 'st state
     \<Rightarrow> (ScrapeResult list \<times> 'st state) option" where
  "batch_loop env maxConcurrent newUrls i results s =
     (if i < length newUrls then
        (case batch_step env maxConcurrent newUrls i results s of
           (results', s') \<Rightarrow> batch_loop env maxConcurrent newUrls (i + maxConcurrent) results' s')
      else Some (results, s))"

text \<open>\<^verbatim>\<open>scrapeUrls(urls)\<close> of a \<^verbatim>\<open>ParallelScraper\<close> built with \<open>maxConcurrent\<close>.\<close>

definition scrapeUrls ::
  "'st env \<Rightarrow> nat \<Rightarrow> string list \<Rightarrow> 'st state \<Rightarrow> (ScrapeResult list \<times> 'st state) option" where
  "scrapeUrls env maxConcurrent urls s =
     (let newUrls = filter (\<lambda>u. \<not> urlExists env (storage s) u) urls
      in if length newUrls = 0 then Some ([], s)
         else (case batch_loop env maxConcurrent newUrls 0 [] s of
                 None \<Rightarrow> None
               | Some (results, s') \<Rightarrow> Some (results, snd (getRetryStats s'))))"

subsection \<open>Auxiliary definitions\<close>

text \<open>
  Names for parts of \<^verbatim>\<open>executeWithRetry\<close> that the statements below refer to: the state
  after a failed attempt (the world left by the operation, the invocation logged, the
  failure recorded), the state after the backoff sleep, the state after the test of the
  breaker at the entry, and the verdict of that test, \<^verbatim>\<open>circuitBreaker.isOpen()\<close>.
\<close>

definition failed_state :: "string \<Rightarrow> string \<Rightarrow> world \<Rightarrow> 'st state \<Rightarrow> 'st state" where
  "failed_state dm u w s = on_breaker dm (recordFailure (clock w)) (s\<lparr>world := w, trace := trace s @ [Invoked u]\<rparr>)"

definition retry_state :: "RetryConfig \<Rightarrow> nat \<Rightarrow> 'st state \<Rightarrow> 'st state" where
  "retry_state cfg a s = s\<lparr>world := sleep (fst (calculateDelay cfg a (world s))) (snd (calculateDelay cfg a (world s)))\<rparr>"

definition entry_state :: "(string \<Rightarrow> string option) \<Rightarrow> string \<Rightarrow> 'st state \<Rightarrow> 'st state" where
  "entry_state hostname u s =
     (let dm = extractDomain hostname u;
          g = getCircuitBreaker dm (circuitBreakers s)
      in s\<lparr>circuitBreakers := AList.update dm (snd (isOpen (clock (world s)) (fst g))) (snd g)\<rparr>)"

definition open_at_entry :: "(string \<Rightarrow> string option) \<Rightarrow> string \<Rightarrow> 'st state \<Rightarrow> bool" where
  "open_at_entry hostname u s =
     fst (isOpen (clock (world s))
            (fst (getCircuitBreaker (extractDomain hostname u) (circuitBreakers s))))"

text \<open>
  Projections of the ghost log: the URLs whose processing has completed, the URLs handed
  to \<^verbatim>\<open>insertHotel\<close>, the keys under which an operation was invoked, and the log
  without the invocations.
\<close>

fun processed_urls :: "event list \<Rightarrow> string list" where
  "processed_urls [] = []"
| "processed_urls (Processed u # es) = u # processed_urls es"
| "processed_urls (e # es) = processed_urls es"

fun inserted_urls :: "event list \<Rightarrow> string list" where
  "inserted_urls [] = []"
| "inserted_urls (Inserted u # es) = u # inserted_urls es"
| "inserted_urls (e # es) = inserted_urls es"

fun invoked_keys :: "event list \<Rightarrow> string list" where
  "invoked_keys [] = []"
| "invoked_keys (Invoked k # es) = k # invoked_keys es"
| "invoked_keys (e # es) = invoked_keys es"

fun milestones :: "event list \<Rightarrow> event list" where
  "milestones [] = []"
| "milestones (Invoked k # es) = milestones es"
| "milestones (e # es) = e # milestones es"

text \<open>
  The order of the events of a run that returns the results \<open>rs\<close> in windows of \<open>mc\<close>
  items: for each window in turn, the completions of its items, then the calls of
  \<^verbatim>\<open>insertHotel\<close> for its successful results, in the order of the window, then the pause
  when a window follows.
\<close>

function windowed_log :: "nat \<Rightarrow> ScrapeResult list \<Rightarrow> event list" where
  "windowed_log mc rs =
     (if mc = 0 \<or> rs = [] then []
      else map Processed (map url (take mc rs))
           @ map Inserted (map url (filter success (take mc rs)))
           @ (if mc < length rs then Paused # windowed_log mc (drop mc rs) else []))"
  by pat_completeness auto
termination
  by (relation "measure (\<lambda>(mc, rs). length rs)") auto

declare windowed_log.simps [simp del]

text \<open>
  Two states that differ in the storage at most; two environments with the same parser
  and operations; a state all of whose breakers have no failure.
\<close>

definition same_but_storage :: "'s state \<Rightarrow> 't state \<Rightarrow> bool" where
  "same_but_storage s t \<longleftrightarrow>
     circuitBreakers s = circuitBreakers t \<and> world s = world t \<and> trace s = trace t"

definition same_operations :: "'s env \<Rightarrow> 't env \<Rightarrow> bool" where
  "same_operations env env' \<longleftrightarrow>
     hostname_of env = hostname_of env' \<and> scrapeOperation env = scrapeOperation env'
     \<and> extractOperation env = extractOperation env'"

definition healthy :: "'st state \<Rightarrow> bool" where
  "healthy s \<longleftrightarrow> list_all (\<lambda>(d, cb). failures cb = 0) (circuitBreakers s)"

subsection \<open>Example inputs\<close>

text \<open>
  Concrete inputs on which the theorems are instantiated: a parser that accepts
  \<^verbatim>\<open>https://\<close> URLs only, a world whose random numbers are all one half, an empty state,
  an operation that always times out, a state whose breaker has just tripped, and a
  state whose first breaker tripped more than a minute ago.
\<close>

definition host_example :: "string \<Rightarrow> string option" where
  "host_example u =
     (if prefix ''https://'' u then Some (takeWhile (\<lambda>c. c \<noteq> CHR ''/'') (drop 8 u)) else None)"

definition world0 :: world where
  "world0 = \<lparr>clock = 0, random_seq = (\<lambda>n. 1 / 2), random_idx = 0\<rparr>"

definition state0 :: "unit state" where
  "state0 = \<lparr>circuitBreakers = [], world = world0, storage = (), trace = []\<rparr>"

definition timeout_error :: raw_error where
  "timeout_error = \<lparr>code = Some ''ETIMEDOUT'', name = Some ''Error'',
      message = Some ''connect ETIMEDOUT'', status = None, errorType = UNKNOWN_ERROR,
      retryable = False\<rparr>"

definition always_timeout :: "world \<Rightarrow> (raw_error + nat) \<times> world" where
  "always_timeout w = (Inl timeout_error, w\<lparr>clock := clock w + 10\<rparr>)"

definition tripped_state :: "unit state" where
  "tripped_state = \<lparr>circuitBreakers = [(''a.example'', \<lparr>failures = 5, successes = 0, lastFailureTime = 900\<rparr>)],
      world = world0\<lparr>clock := 1000\<rparr>, storage = (), trace = []\<rparr>"

definition stale_state :: "unit state" where
  "stale_state =
     \<lparr>circuitBreakers =
        [(''a.example'', \<lparr>failures = 5, successes = 2, lastFailureTime = 0\<rparr>),
         (''b.example'', \<lparr>failures = 1, successes = 0, lastFailureTime = 69000\<rparr>)],
      world = world0\<lparr>clock := 70000\<rparr>, storage = (), trace = []\<rparr>"

text \<open>
  For the scraper: a storage that is the list of the saved URLs, operations that succeed
  except for the page of \<^verbatim>\<open>down.example\<close>, a storage method that always throws, a state whose
  storage holds one URL, an error that carries the status 404 outside its message, and
  a world whose next random number is small.
\<close>

definition features_example :: AccessibilityFeatures where
  "features_example =
     \<lparr>wheelchairAccessible = True, accessibleBathroom = True, elevator = False,
      brailleSignage = False, publicTransitNearby = True\<rparr>"

definition env_example :: "string list env" where
  "env_example =
     \<lparr>hostname_of = host_example,
      scrapeOperation = (\<lambda>u w.
         if u = ''https://down.example/'' then (Inl timeout_error, w\<lparr>clock := clock w + 10\<rparr>)
         else (Inr ''<html>hotel</html>'', w\<lparr>clock := clock w + 10\<rparr>)),
      extractOperation = (\<lambda>text' w. (Inr (Some features_example), w\<lparr>clock := clock w + 5\<rparr>)),
      urlExists = (\<lambda>st u. u \<in> set st),
      insertHotel = (\<lambda>r st. (Some (length st), st @ [h_url r]))\<rparr>"

definition failing_insertHotel :: "HotelRecord \<Rightarrow> string list \<Rightarrow> nat option \<times> string list" where
  "failing_insertHotel r st = (None, st)"

definition state1 :: "string list state" where
  "state1 = \<lparr>circuitBreakers = [], world = world0, storage = [''https://done.example/''], trace = []\<rparr>"

definition not_found_error :: raw_error where
  "not_found_error =
     \<lparr>code = None, name = Some ''Error'', message = Some ''Not Found'', status = Some 404,
      errorType = UNKNOWN_ERROR, retryable = False\<rparr>"

definition world_low :: world where
  "world_low = \<lparr>clock = 0, random_seq = (\<lambda>n. 1 / 2048), random_idx = 0\<rparr>"

definition odd_config :: RetryConfig where
  "odd_config =
     \<lparr>maxAttempts = 3, baseDelay = 1001, maxDelay = 30000, backoffMultiplier = 2,
      jitter = True\<rparr>"

section \<open>Properties\<close>

subsection \<open>The attempt loop\<close>

text \<open>
  One equation for each way through the body of the loop, and what a thrown
  \<^verbatim>\<open>DetailedError\<close> says about the attempts made, the log and the breaker.
\<close>

lemma on_breaker_simps [simp]:
  "trace (on_breaker d f s) = trace s" "storage (on_breaker d f s) = storage s" "world (on_breaker d f s) = world s"
  by (simp_all add: on_breaker_def)

lemma attempt_loop_exit:
  "\<not> a \<le> maxAttempts cfg \<Longrightarrow> attempt_loop cfg op u ctx dm a le s =
     (Inl (case le of Some d \<Rightarrow> ThrowDetailed d
            | None \<Rightarrow> ThrowError (RetryableError UNKNOWN_ERROR ''All retry attempts failed'' False)), s)"
  by (simp add: attempt_loop.simps)

lemma attempt_loop_success:
  "a \<le> maxAttempts cfg \<Longrightarrow> op (world s) = (Inr v, w) \<Longrightarrow>
   attempt_loop cfg op u ctx dm a le s =
     (Inr v, on_breaker dm recordSuccess (s\<lparr>world := w, trace := trace s @ [Invoked u]\<rparr>))"
  by (simp add: attempt_loop.simps)

lemma attempt_loop_stop:
  "a \<le> maxAttempts cfg \<Longrightarrow> op (world s) = (Inl e, w) \<Longrightarrow>
   \<not> e_retryable (categorizeError e u a ctx (clock w)) \<or> a = maxAttempts cfg \<Longrightarrow>
   attempt_loop cfg op u ctx dm a le s =
     (Inl (ThrowDetailed (categorizeError e u a ctx (clock w))), failed_state dm u w s)"
  by (subst attempt_loop.simps) (simp add: failed_state_def Let_def)

lemma attempt_loop_retry:
  "a \<le> maxAttempts cfg \<Longrightarrow> op (world s) = (Inl e, w) \<Longrightarrow>
   e_retryable (categorizeError e u a ctx (clock w)) \<Longrightarrow> a \<noteq> maxAttempts cfg \<Longrightarrow>
   attempt_loop cfg op u ctx dm a le s =
     attempt_loop cfg op u ctx dm (a + 1) (Some (categorizeError e u a ctx (clock w)))
       (retry_state cfg a (failed_state dm u w s))"
  by (subst attempt_loop.simps) (simp add: failed_state_def retry_state_def Let_def split: prod.splits)

lemma categorizeError_fields [simp]:
  "attempt (categorizeError e u a ctx t) = a"
  "e_timestamp (categorizeError e u a ctx t) = t"
  "e_url (categorizeError e u a ctx t) = u"
  "originalError (categorizeError e u a ctx t) = e"
  by (simp_all add: categorizeError_def Let_def case_prod_beta)

lemma failed_state_simps [simp]:
  "trace (failed_state dm u w s) = trace s @ [Invoked u]"
  "storage (failed_state dm u w s) = storage s"
  "world (failed_state dm u w s) = w"
  "map_of (circuitBreakers (failed_state dm u w s)) k =
     (if k = dm then map_option (recordFailure (clock w)) (map_of (circuitBreakers s) dm)
      else map_of (circuitBreakers s) k)"
  by (auto simp: failed_state_def on_breaker_def AList.map_of_map_entry split: option.splits)

lemma retry_state_simps [simp]:
  "trace (retry_state cfg a s) = trace s"
  "storage (retry_state cfg a s) = storage s"
  "circuitBreakers (retry_state cfg a s) = circuitBreakers s"
  by (simp_all add: retry_state_def)

lemma attempt_loop_fail_inv:
  assumes "attempt_loop cfg op u ctx dm a le s = (Inl (ThrowDetailed d), s')"
    and "a \<le> maxAttempts cfg" and "map_of (circuitBreakers s) dm = Some cb"
  shows "a \<le> attempt d \<and> attempt d \<le> maxAttempts cfg
       \<and> trace s' = trace s @ replicate (attempt d + 1 - a) (Invoked u)
       \<and> (\<exists>cb'. map_of (circuitBreakers s') dm = Some cb'
              \<and> failures cb' = failures cb + (attempt d + 1 - a)
              \<and> lastFailureTime cb' = e_timestamp d)
       \<and> clock (world s') = e_timestamp d"
  using assms
proof (induction "maxAttempts cfg - a" arbitrary: a le s cb)
  case 0
  obtain x w where ow: "op (world s) = (x, w)" by fastforce
  show ?case
  proof (cases x)
    case (Inr v)
    then show ?thesis using attempt_loop_success[OF "0.prems"(2), of op s v w u ctx dm le] ow "0.prems"(1) by simp
  next
    case (Inl e)
    have "a = maxAttempts cfg" using 0 by simp
    then have "attempt_loop cfg op u ctx dm a le s =
        (Inl (ThrowDetailed (categorizeError e u a ctx (clock w))), failed_state dm u w s)"
      using attempt_loop_stop[OF "0.prems"(2), of op s e w u ctx dm le] ow Inl by simp
    with "0.prems"(1) have "d = categorizeError e u a ctx (clock w)" "s' = failed_state dm u w s" by simp_all
    then show ?thesis using "0.prems"(2,3) by (simp add: recordFailure_def)
  qed
next
  case (Suc k)
  obtain x w where ow: "op (world s) = (x, w)" by fastforce
  show ?case
  proof (cases x)
    case (Inr v)
    then show ?thesis using attempt_loop_success[OF Suc.prems(2), of op s v w u ctx dm le] ow Suc.prems(1) by simp
  next
    case (Inl e)
    show ?thesis
    proof (cases "e_retryable (categorizeError e u a ctx (clock w))")
      case False
      then have "attempt_loop cfg op u ctx dm a le s =
          (Inl (ThrowDetailed (categorizeError e u a ctx (clock w))), failed_state dm u w s)"
        using attempt_loop_stop[OF Suc.prems(2), of op s e w u ctx dm le] ow Inl by simp
      with Suc.prems(1) have "d = categorizeError e u a ctx (clock w)" "s' = failed_state dm u w s" by simp_all
      then show ?thesis using Suc.prems(2,3) by (simp add: recordFailure_def)
    next
      case True
      have ne: "a \<noteq> maxAttempts cfg" using Suc.hyps(2) by simp
      let ?s1 = "retry_state cfg a (failed_state dm u w s)"
      have rec: "attempt_loop cfg op u ctx dm (a + 1) (Some (categorizeError e u a ctx (clock w))) ?s1
                  = (Inl (ThrowDetailed d), s')"
        using attempt_loop_retry[OF Suc.prems(2) _ True ne, of op s dm le] ow Inl Suc.prems(1) by simp
      have k: "k = maxAttempts cfg - (a + 1)" using Suc.hyps(2) by simp
      have le1: "a + 1 \<le> maxAttempts cfg" using Suc.hyps(2) by simp
      have m: "map_of (circuitBreakers ?s1) dm = Some (recordFailure (clock w) cb)"
        using Suc.prems(3) by simp
      from Suc.hyps(1)[OF k rec le1 m] show ?thesis
        by (auto simp: recordFailure_def Suc_diff_le)
    qed
  qed
qed

lemma attempt_loop_always_fails:
  assumes H: "\<And>w. \<exists>e w'. op w = (Inl e, w') \<and> (\<forall>a t. e_retryable (categorizeError e u a ctx t))"
    and "a \<le> maxAttempts cfg"
  shows "\<exists>d s'. attempt_loop cfg op u ctx dm a le s = (Inl (ThrowDetailed d), s') \<and> attempt d = maxAttempts cfg"
  using assms(2)
proof (induction "maxAttempts cfg - a" arbitrary: a le s)
  case 0
  obtain e w where ow: "op (world s) = (Inl e, w)" using H by blast
  have "a = maxAttempts cfg" using 0 by simp
  then show ?case
    using attempt_loop_stop[where op = op and s = s and le = le and dm = dm, OF "0.prems"(1) ow] by simp
next
  case (Suc k)
  obtain e w where ow: "op (world s) = (Inl e, w)" and rt: "\<forall>a t. e_retryable (categorizeError e u a ctx t)"
    using H by blast
  have ne: "a \<noteq> maxAttempts cfg" using Suc.hyps(2) by simp
  have k: "k = maxAttempts cfg - (a + 1)" using Suc.hyps(2) by simp
  have le1: "a + 1 \<le> maxAttempts cfg" using Suc.hyps(2) by simp
  show ?case
    using attempt_loop_retry[where op = op and s = s and le = le and dm = dm, OF Suc.prems(1) ow _ ne]
      rt Suc.hyps(1)[OF k le1]
    by simp
qed

lemma executeWithRetry_unfold:
  "executeWithRetry hostname cfg op u ctx s =
     (if open_at_entry hostname u s
      then (Inl (ThrowError (RetryableError NETWORK_ERROR
                      (''Circuit breaker is open for domain '' @ extractDomain hostname u) False)),
            entry_state hostname u s)
      else attempt_loop cfg op u ctx (extractDomain hostname u) 1 None (entry_state hostname u s))"
  by (simp add: executeWithRetry_def entry_state_def open_at_entry_def Let_def split: prod.splits)

lemma entry_state_simps [simp]:
  "trace (entry_state hostname u s) = trace s"
  "storage (entry_state hostname u s) = storage s"
  "world (entry_state hostname u s) = world s"
  "map_of (circuitBreakers (entry_state hostname u s)) (extractDomain hostname u) =
     Some (snd (isOpen (clock (world s))
            (fst (getCircuitBreaker (extractDomain hostname u) (circuitBreakers s)))))"
  by (simp_all add: entry_state_def Let_def AList.update_conv')

lemma entry_state_open:
  assumes "open_at_entry hostname u s"
  shows "entry_state hostname u s = s"
proof -
  let ?dm = "extractDomain hostname u"
  from assms obtain cb where cb: "map_of (circuitBreakers s) ?dm = Some cb"
    by (cases "map_of (circuitBreakers s) ?dm")
       (auto simp: open_at_entry_def getCircuitBreaker_def isOpen_def new_CircuitBreaker_def failureThreshold_def)
  then have g: "getCircuitBreaker ?dm (circuitBreakers s) = (cb, circuitBreakers s)"
    by (simp add: getCircuitBreaker_def)
  with assms have "snd (isOpen (clock (world s)) cb) = cb"
    by (auto simp: open_at_entry_def isOpen_def split: if_splits)
  with g cb show ?thesis
    by (simp add: entry_state_def AList.update_triv)
qed

lemma executeWithRetry_open:
  assumes "open_at_entry hostname u s"
  shows "executeWithRetry hostname cfg op u ctx s =
           (Inl (ThrowError (RetryableError NETWORK_ERROR
                      (''Circuit breaker is open for domain '' @ extractDomain hostname u) False)), s)"
  using assms by (simp add: executeWithRetry_unfold entry_state_open)

lemma executeWithRetry_detailed:
  assumes "executeWithRetry hostname cfg op u ctx s = (Inl (ThrowDetailed d), s')"
  shows "1 \<le> attempt d \<and> attempt d \<le> maxAttempts cfg
       \<and> trace s' = trace s @ replicate (attempt d) (Invoked u)
       \<and> (\<exists>cb'. map_of (circuitBreakers s') (extractDomain hostname u) = Some cb'
              \<and> failures cb' = failures (snd (isOpen (clock (world s))
                     (fst (getCircuitBreaker (extractDomain hostname u) (circuitBreakers s))))) + attempt d
              \<and> lastFailureTime cb' = e_timestamp d)
       \<and> clock (world s') = e_timestamp d"
proof -
  let ?dm = "extractDomain hostname u"
  have closed: "\<not> open_at_entry hostname u s"
    using assms by (auto simp: executeWithRetry_unfold split: if_splits)
  then have loop: "attempt_loop cfg op u ctx ?dm 1 None (entry_state hostname u s) = (Inl (ThrowDetailed d), s')"
    using assms by (simp add: executeWithRetry_unfold)
  have le: "1 \<le> maxAttempts cfg"
  proof (rule ccontr)
    assume "\<not> 1 \<le> maxAttempts cfg"
    from attempt_loop_exit[OF this, of op u ctx ?dm None "entry_state hostname u s"] loop
    show False by simp
  qed
  from attempt_loop_fail_inv[OF loop le entry_state_simps(4)] show ?thesis by simp
qed

lemma executeWithRetry_always_fails:
  assumes H: "\<And>w. \<exists>e w'. op w = (Inl e, w') \<and> (\<forall>a t. e_retryable (categorizeError e u a ctx t))"
    and "\<not> open_at_entry hostname u s" and "1 \<le> maxAttempts cfg"
  shows "\<exists>d s'. executeWithRetry hostname cfg op u ctx s = (Inl (ThrowDetailed d), s')
           \<and> attempt d = maxAttempts cfg
           \<and> trace s' = trace s @ replicate (maxAttempts cfg) (Invoked u)"
proof -
  from attempt_loop_always_fails[where op = op and u = u and ctx = ctx, OF H assms(3)]
  obtain d s' where l: "attempt_loop cfg op u ctx (extractDomain hostname u) 1 None (entry_state hostname u s)
       = (Inl (ThrowDetailed d), s')" and a: "attempt d = maxAttempts cfg"
    by blast
  then have e: "executeWithRetry hostname cfg op u ctx s = (Inl (ThrowDetailed d), s')"
    using assms(2) by (simp add: executeWithRetry_unfold)
  from executeWithRetry_detailed[OF e] a e show ?thesis by auto
qed

lemma host1: "host_example ''https://a.example/'' = Some ''a.example''"
  by (simp add: host_example_def)

subsection \<open>Open circuit at the entry\<close>

text \<open>
  Claim C1. If the breaker of the key's domain is open when \<^verbatim>\<open>executeWithRetry\<close> is called,
  the call throws a \<^verbatim>\<open>RetryableError\<close> of type \<^verbatim>\<open>NETWORK_ERROR\<close> whose flag
  \<^verbatim>\<open>retryable\<close> is false, and the state is left as it was: the operation is not invoked
  (the log of invocations is unchanged), whatever the operation and the configuration.
\<close>

theorem executeWithRetry_open_circuit:
  assumes "open_at_entry hostname u s"
  shows "\<exists>e. executeWithRetry hostname cfg op u ctx s = (Inl (ThrowError e), s)
           \<and> e = RetryableError NETWORK_ERROR
                   (''Circuit breaker is open for domain '' @ extractDomain hostname u) False
           \<and> \<not> retryable e
           \<and> trace (snd (executeWithRetry hostname cfg op u ctx s)) = trace s"
proof -
  let ?e = "RetryableError NETWORK_ERROR
              (''Circuit breaker is open for domain '' @ extractDomain hostname u) False"
  have e: "executeWithRetry hostname cfg op u ctx s = (Inl (ThrowError ?e), s)"
    by (rule executeWithRetry_open[OF assms])
  have "\<not> retryable ?e" by (simp add: RetryableError_def)
  with e show ?thesis by simp
qed

text \<open>
  An instance: five failures 100 ms ago on \<^verbatim>\<open>a.example\<close>, and a call for a URL of that
  domain.
\<close>

theorem executeWithRetry_open_circuit_witness:
  "open_at_entry host_example ''https://a.example/'' tripped_state
   \<and> executeWithRetry host_example defaultConfig always_timeout ''https://a.example/'' ''scraping'' tripped_state
      = (Inl (ThrowError (RetryableError NETWORK_ERROR ''Circuit breaker is open for domain a.example'' False)),
         tripped_state)"
proof -
  have o: "open_at_entry host_example ''https://a.example/'' tripped_state"
    by (simp add: open_at_entry_def extractDomain_def host1 tripped_state_def getCircuitBreaker_def
        isOpen_def failureThreshold_def resetTimeout_def world0_def)
  from executeWithRetry_open_circuit[OF o, of defaultConfig always_timeout "''scraping''"] o show ?thesis
    by (simp add: extractDomain_def host1)
qed

subsection \<open>Exhausting the attempts\<close>

text \<open>
  Claim C3. With \<open>maxAttempts = 3\<close> and the circuit closed at the entry, an operation
  that fails on every invocation with an error classified as retryable is invoked exactly
  three times, and the call throws a \<^verbatim>\<open>DetailedError\<close> whose \<^verbatim>\<open>attempt\<close> is 3. For every
  configuration and operation, the \<^verbatim>\<open>attempt\<close> of a thrown \<^verbatim>\<open>DetailedError\<close> is at
  least 1 and at most \<open>maxAttempts\<close>. (The two \<^verbatim>\<open>RetryableError\<close>s that
  \<^verbatim>\<open>executeWithRetry\<close> throws itself have no field \<^verbatim>\<open>attempt\<close>.)
\<close>

theorem executeWithRetry_exhausts_attempts:
  "(maxAttempts cfg = 3 \<and> \<not> open_at_entry hostname u s
      \<and> (\<forall>w. \<exists>e w'. op w = (Inl e, w') \<and> (\<forall>a t. e_retryable (categorizeError e u a ctx t)))
     \<longrightarrow> (\<exists>d s'. executeWithRetry hostname cfg op u ctx s = (Inl (ThrowDetailed d), s')
            \<and> attempt d = 3 \<and> trace s' = trace s @ [Invoked u, Invoked u, Invoked u]))
   \<and> (\<forall>d s'. executeWithRetry hostname cfg op u ctx s = (Inl (ThrowDetailed d), s')
         \<longrightarrow> 1 \<le> attempt d \<and> attempt d \<le> maxAttempts cfg)"
proof (intro conjI impI allI)
  assume a: "maxAttempts cfg = 3 \<and> \<not> open_at_entry hostname u s
      \<and> (\<forall>w. \<exists>e w'. op w = (Inl e, w') \<and> (\<forall>a t. e_retryable (categorizeError e u a ctx t)))"
  then have H: "\<And>w. \<exists>e w'. op w = (Inl e, w') \<and> (\<forall>a t. e_retryable (categorizeError e u a ctx t))"
    by blast
  have "1 \<le> maxAttempts cfg" using a by simp
  from executeWithRetry_always_fails[where op = op and u = u and ctx = ctx, OF H _ this, of hostname s] a
  show "\<exists>d s'. executeWithRetry hostname cfg op u ctx s = (Inl (ThrowDetailed d), s')
            \<and> attempt d = 3 \<and> trace s' = trace s @ [Invoked u, Invoked u, Invoked u]"
    by (simp add: numeral_3_eq_3)
next
  fix d s' assume "executeWithRetry hostname cfg op u ctx s = (Inl (ThrowDetailed d), s')"
  from executeWithRetry_detailed[OF this] show "1 \<le> attempt d" "attempt d \<le> maxAttempts cfg" by simp_all
qed

text \<open>An instance: an operation that always times out, from the empty state.\<close>

theorem executeWithRetry_exhausts_attempts_witness:
  "\<exists>d s'. executeWithRetry host_example defaultConfig always_timeout ''https://a.example/'' ''scraping'' state0
             = (Inl (ThrowDetailed d), s')
      \<and> attempt d = 3 \<and> 1 \<le> attempt d \<and> attempt d \<le> maxAttempts defaultConfig
      \<and> trace s' = [Invoked ''https://a.example/'', Invoked ''https://a.example/'', Invoked ''https://a.example/'']"
proof -
  have m: "maxAttempts defaultConfig = 3" by (simp add: defaultConfig_def)
  have c: "\<not> open_at_entry host_example ''https://a.example/'' state0"
    by (simp add: open_at_entry_def state0_def getCircuitBreaker_def isOpen_def
        new_CircuitBreaker_def failureThreshold_def)
  have f: "\<forall>w. \<exists>e w'. always_timeout w = (Inl e, w')
           \<and> (\<forall>a t. e_retryable (categorizeError e ''https://a.example/'' a ''scraping'' t))"
    by (simp add: always_timeout_def timeout_error_def categorizeError_def Let_def)
  from executeWithRetry_exhausts_attempts[of defaultConfig host_example "''https://a.example/''" state0 always_timeout "''scraping''"] m c f
  show ?thesis by (auto simp: state0_def)
qed

subsection \<open>The backoff delay\<close>

lemma computedDelay_mono:
  assumes "0 \<le> baseDelay cfg" "1 \<le> backoffMultiplier cfg" "1 \<le> a" "a \<le> b"
  shows "computedDelay cfg a \<le> computedDelay cfg b"
proof -
  have "backoffMultiplier cfg ^ (a - 1) \<le> backoffMultiplier cfg ^ (b - 1)"
    using assms by (intro power_increasing) auto
  then have "baseDelay cfg * backoffMultiplier cfg ^ (a - 1) \<le> baseDelay cfg * backoffMultiplier cfg ^ (b - 1)"
    using assms(1) by (rule mult_left_mono)
  then show ?thesis unfolding computedDelay_def by (simp add: min_le_iff_disj)
qed

lemma computedDelay_nonneg:
  assumes "0 \<le> baseDelay cfg" "1 \<le> backoffMultiplier cfg" "0 \<le> maxDelay cfg"
  shows "0 \<le> computedDelay cfg a"
  using assms by (simp add: computedDelay_def)

lemma calculateDelay_plain:
  "\<not> jitter cfg \<Longrightarrow> calculateDelay cfg a w = (\<lfloor>computedDelay cfg a\<rfloor>, w)"
  by (simp add: calculateDelay_def)

lemma calculateDelay_jitter:
  "jitter cfg \<Longrightarrow> calculateDelay cfg a w =
     (\<lfloor>computedDelay cfg a * (0.5 + random_seq w (random_idx w) * 0.5)\<rfloor>,
      w\<lparr>random_idx := random_idx w + 1\<rparr>)"
  by (simp add: calculateDelay_def Math_random_def)

lemma jitter_bounds:
  assumes c: "0 \<le> (c::real)" and r: "0 \<le> r" "r < 1"
  shows "\<lfloor>0.5 * c\<rfloor> \<le> \<lfloor>c * (0.5 + r * 0.5)\<rfloor>" "of_int \<lfloor>c * (0.5 + r * 0.5)\<rfloor> \<le> c"
proof -
  have "0 \<le> c * r" using c r by simp
  then have "0.5 * c \<le> c * (0.5 + r * 0.5)" by (simp add: algebra_simps)
  then show "\<lfloor>0.5 * c\<rfloor> \<le> \<lfloor>c * (0.5 + r * 0.5)\<rfloor>" by (rule floor_mono)
  have "c * r \<le> c * 1" using c r by (intro mult_left_mono) auto
  then have "c * (0.5 + r * 0.5) \<le> c" by (simp add: algebra_simps)
  moreover have "of_int \<lfloor>c * (0.5 + r * 0.5)\<rfloor> \<le> c * (0.5 + r * 0.5)" by (rule of_int_floor_le)
  ultimately show "of_int \<lfloor>c * (0.5 + r * 0.5)\<rfloor> \<le> c" by linarith
qed

text \<open>
  Claim C4, amended. For a configuration with \<open>baseDelay \<ge> 0\<close>, \<open>maxDelay \<ge> 0\<close> and
  \<open>backoffMultiplier \<ge> 1\<close>, the delay computed before the jitter is
  \<open>min (baseDelay * backoffMultiplier ^ (attempt - 1)) maxDelay\<close>, is non-decreasing
  in the attempt number and is at most \<open>maxDelay\<close>. \<^verbatim>\<open>calculateDelay\<close> returns that delay
  rounded down to a whole number of milliseconds when the jitter is off; with the jitter
  on and a random number in \<open>[0, 1)\<close>, the returned delay lies between half the computed
  delay rounded down and the computed delay.
\<close>

theorem calculateDelay_bounds:
  assumes "0 \<le> baseDelay cfg" "1 \<le> backoffMultiplier cfg" "0 \<le> maxDelay cfg"
    and "1 \<le> a" "a \<le> b"
    and "0 \<le> random_seq w (random_idx w)" "random_seq w (random_idx w) < 1"
  shows "computedDelay cfg a = min (baseDelay cfg * backoffMultiplier cfg ^ (a - 1)) (maxDelay cfg)
       \<and> computedDelay cfg a \<le> computedDelay cfg b
       \<and> computedDelay cfg a \<le> maxDelay cfg
       \<and> (\<not> jitter cfg \<longrightarrow> fst (calculateDelay cfg a w) = \<lfloor>computedDelay cfg a\<rfloor>)
       \<and> (jitter cfg \<longrightarrow> \<lfloor>0.5 * computedDelay cfg a\<rfloor> \<le> fst (calculateDelay cfg a w)
                        \<and> of_int (fst (calculateDelay cfg a w)) \<le> computedDelay cfg a)"
proof -
  have 1: "computedDelay cfg a = min (baseDelay cfg * backoffMultiplier cfg ^ (a - 1)) (maxDelay cfg)"
    by (simp add: computedDelay_def)
  have 2: "computedDelay cfg a \<le> computedDelay cfg b"
    using assms(1,2,4,5) by (rule computedDelay_mono)
  have 3: "computedDelay cfg a \<le> maxDelay cfg" by (simp add: computedDelay_def)
  have 4: "\<not> jitter cfg \<longrightarrow> fst (calculateDelay cfg a w) = \<lfloor>computedDelay cfg a\<rfloor>"
    by (simp add: calculateDelay_plain)
  have c: "0 \<le> computedDelay cfg a" using assms(1,2,3) by (rule computedDelay_nonneg)
  have 5: "jitter cfg \<longrightarrow> \<lfloor>0.5 * computedDelay cfg a\<rfloor> \<le> fst (calculateDelay cfg a w)
                        \<and> of_int (fst (calculateDelay cfg a w)) \<le> computedDelay cfg a"
    using jitter_bounds[OF c assms(6,7)] by (simp add: calculateDelay_jitter)
  from 1 2 3 4 5 show ?thesis by blast
qed

text \<open>An instance: the configuration of \<^verbatim>\<open>worker.ts\<close>, attempts 2 and 5.\<close>

theorem calculateDelay_bounds_witness:
  "computedDelay workerConfig 2 = 2000 \<and> computedDelay workerConfig 2 \<le> computedDelay workerConfig 5
   \<and> computedDelay workerConfig 5 = 15000
   \<and> fst (calculateDelay workerConfig 2 world0) = 1500
   \<and> fst (calculateDelay (workerConfig\<lparr>jitter := False\<rparr>) 2 world0) = 2000"
proof -
  have h: "0 \<le> baseDelay workerConfig" "1 \<le> backoffMultiplier workerConfig" "0 \<le> maxDelay workerConfig"
     "1 \<le> (2::nat)" "(2::nat) \<le> 5" "0 \<le> random_seq world0 (random_idx world0)" "random_seq world0 (random_idx world0) < 1"
    by (simp_all add: workerConfig_def world0_def)
  have h': "0 \<le> baseDelay (workerConfig\<lparr>jitter := False\<rparr>)" "1 \<le> backoffMultiplier (workerConfig\<lparr>jitter := False\<rparr>)"
     "0 \<le> maxDelay (workerConfig\<lparr>jitter := False\<rparr>)"
    by (simp_all add: workerConfig_def)
  have e: "computedDelay workerConfig 2 = 2000" "computedDelay workerConfig 5 = 15000"
    "fst (calculateDelay workerConfig 2 world0) = 1500"
    by (simp_all add: computedDelay_def workerConfig_def calculateDelay_def Math_random_def world0_def)
  have e2: "computedDelay (workerConfig\<lparr>jitter := False\<rparr>) 2 = 2000"
    by (simp add: computedDelay_def workerConfig_def)
  from calculateDelay_bounds[OF h] calculateDelay_bounds[OF h' h(4-7)] e e2 show ?thesis by simp
qed

text \<open>
  Claim C4 as stated fails: with \<open>baseDelay = 1001\<close> and the random number \<open>1/2048\<close>, the
  first delay is 500 ms, below half of the computed 1001 ms; \<^verbatim>\<open>Math.floor\<close> rounds the
  jittered delay down.
\<close>

theorem calculateDelay_below_half:
  "\<not> (0.5 * computedDelay odd_config 1 \<le> of_int (fst (calculateDelay odd_config 1 world_low)))"
  by (simp add: calculateDelay_def computedDelay_def Math_random_def odd_config_def world_low_def)

subsection \<open>The verdict of isOpen\<close>

lemma isOpen_fst:
  "fst (isOpen now cb) \<longleftrightarrow> failureThreshold \<le> failures cb \<and> now - lastFailureTime cb \<le> resetTimeout"
  by (auto simp: isOpen_def)

lemma isOpen_snd:
  "snd (isOpen now cb) =
     (if failureThreshold \<le> failures cb \<and> resetTimeout < now - lastFailureTime cb
      then cb\<lparr>failures := 0\<rparr> else cb)"
  by (auto simp: isOpen_def)

text \<open>
  Claim C2, amended. \<^verbatim>\<open>isOpen()\<close> returns true if and only if the failure count has
  reached the threshold and at most \<open>resetTimeout\<close> has elapsed since the last failure; a
  new breaker, and so the breaker that \<^verbatim>\<open>getCircuitBreaker\<close> creates for a new domain, is
  not open; and once more than \<open>resetTimeout\<close> has elapsed since the last failure the
  verdict is false, no success being needed.
\<close>

theorem isOpen_verdict:
  "(fst (isOpen now cb) \<longleftrightarrow> failureThreshold \<le> failures cb \<and> now - lastFailureTime cb \<le> resetTimeout)
   \<and> \<not> fst (isOpen now new_CircuitBreaker)
   \<and> (map_of cbs d = None \<longrightarrow> \<not> fst (isOpen now (fst (getCircuitBreaker d cbs))))
   \<and> (resetTimeout < now - lastFailureTime cb \<longrightarrow> \<not> fst (isOpen now cb))"
  by (auto simp: isOpen_fst new_CircuitBreaker_def getCircuitBreaker_def failureThreshold_def)

text \<open>
  An instance: a breaker with five failures at time 0 is open at 60000 and closed at
  60001; the breaker of a new domain is closed.
\<close>

theorem isOpen_verdict_witness:
  "fst (isOpen 60000 \<lparr>failures = 5, successes = 0, lastFailureTime = 0\<rparr>)
   \<and> \<not> fst (isOpen 60001 \<lparr>failures = 5, successes = 0, lastFailureTime = 0\<rparr>)
   \<and> \<not> fst (isOpen 7 (fst (getCircuitBreaker ''a.example'' [])))"
  using isOpen_verdict[of 60000 "\<lparr>failures = 5, successes = 0, lastFailureTime = 0\<rparr>" "[]" "''a.example''"]
    isOpen_verdict[of 60001 "\<lparr>failures = 5, successes = 0, lastFailureTime = 0\<rparr>" "[]" "''a.example''"]
    isOpen_verdict[of 7 "\<lparr>failures = 5, successes = 0, lastFailureTime = 0\<rparr>" "[]" "''a.example''"]
  by (simp add: failureThreshold_def resetTimeout_def)

text \<open>
  Claim C2 as stated fails: after five failures at time 0 the breaker is still open at
  time 60000, when exactly \<open>resetTimeout\<close> has elapsed (the code tests
  \<open>now - lastFailureTime > resetTimeout\<close>).
\<close>

theorem isOpen_at_exact_timeout:
  "\<not> (fst (isOpen 60000 (recordFailure 0 (recordFailure 0 (recordFailure 0 (recordFailure 0 (recordFailure 0 new_CircuitBreaker))))))
      \<longleftrightarrow> failureThreshold \<le> failures (recordFailure 0 (recordFailure 0 (recordFailure 0 (recordFailure 0 (recordFailure 0 new_CircuitBreaker)))))
          \<and> 60000 - lastFailureTime (recordFailure 0 (recordFailure 0 (recordFailure 0 (recordFailure 0 (recordFailure 0 new_CircuitBreaker))))) < resetTimeout)"
  by (simp add: isOpen_def recordFailure_def new_CircuitBreaker_def failureThreshold_def resetTimeout_def)

subsection \<open>What isOpen and getStats change\<close>

lemma getStats_breakers:
  "circuitBreakers (snd (getStats s)) = map (\<lambda>(d, cb). (d, snd (isOpen (clock (world s)) cb))) (circuitBreakers s)"
  by (simp add: getStats_def Let_def)

lemma map_of_map_snd: "map_of (map (\<lambda>(d, cb). (d, f cb)) xs) k = map_option f (map_of xs k)"
  by (induction xs) auto

text \<open>
  Claim C7, amended. \<^verbatim>\<open>isOpen()\<close> leaves the breaker as it is, except that it resets the
  failure count to 0 when the count has reached the threshold and more than
  \<open>resetTimeout\<close> has elapsed since the last failure; it never changes the success count
  or the time of the last failure. \<^verbatim>\<open>getStats()\<close> keeps the domains and their order, does
  to each breaker what \<^verbatim>\<open>isOpen()\<close> does at the current time, and changes nothing else.
\<close>

theorem isOpen_getStats_effect:
  "snd (isOpen now cb) =
     (if failureThreshold \<le> failures cb \<and> resetTimeout < now - lastFailureTime cb
      then cb\<lparr>failures := 0\<rparr> else cb)
   \<and> map fst (circuitBreakers (snd (getStats s))) = map fst (circuitBreakers s)
   \<and> map_of (circuitBreakers (snd (getStats s))) k =
       map_option (\<lambda>cb. if failureThreshold \<le> failures cb \<and> resetTimeout < clock (world s) - lastFailureTime cb
                         then cb\<lparr>failures := 0\<rparr> else cb) (map_of (circuitBreakers s) k)
   \<and> world (snd (getStats s)) = world s \<and> storage (snd (getStats s)) = storage s
   \<and> trace (snd (getStats s)) = trace s"
proof -
  have "(\<lambda>cb. snd (isOpen (clock (world s)) cb)) =
        (\<lambda>cb. if failureThreshold \<le> failures cb \<and> resetTimeout < clock (world s) - lastFailureTime cb
                         then cb\<lparr>failures := 0\<rparr> else cb)"
    by (rule ext) (rule isOpen_snd)
  then have "map_of (circuitBreakers (snd (getStats s))) k =
       map_option (\<lambda>cb. if failureThreshold \<le> failures cb \<and> resetTimeout < clock (world s) - lastFailureTime cb
                         then cb\<lparr>failures := 0\<rparr> else cb) (map_of (circuitBreakers s) k)"
    using map_of_map_snd[of "\<lambda>cb. snd (isOpen (clock (world s)) cb)" "circuitBreakers s" k]
    by (simp add: getStats_breakers)
  moreover have "map fst (circuitBreakers (snd (getStats s))) = map fst (circuitBreakers s)"
    by (simp add: getStats_breakers case_prod_beta)
  moreover have "world (snd (getStats s)) = world s \<and> storage (snd (getStats s)) = storage s
   \<and> trace (snd (getStats s)) = trace s"
    by (simp add: getStats_def Let_def)
  ultimately show ?thesis using isOpen_snd[of now cb] by simp
qed

text \<open>
  An instance: at time 70000, \<^verbatim>\<open>getStats()\<close> resets the five failures that
  \<^verbatim>\<open>a.example\<close> had at time 0 and keeps the breaker of \<^verbatim>\<open>b.example\<close>.
\<close>

theorem isOpen_getStats_effect_witness:
  "map_of (circuitBreakers (snd (getStats stale_state))) ''a.example'' =
     Some \<lparr>failures = 0, successes = 2, lastFailureTime = 0\<rparr>
   \<and> map_of (circuitBreakers (snd (getStats stale_state))) ''b.example'' =
     Some \<lparr>failures = 1, successes = 0, lastFailureTime = 69000\<rparr>
   \<and> map fst (circuitBreakers (snd (getStats stale_state))) = [''a.example'', ''b.example'']"
  using isOpen_getStats_effect[of 0 new_CircuitBreaker stale_state "''a.example''"]
    isOpen_getStats_effect[of 0 new_CircuitBreaker stale_state "''b.example''"]
  by (simp add: stale_state_def world0_def failureThreshold_def resetTimeout_def)

text \<open>
  Claim C7 as stated fails: after five failures at time 0, a call of \<^verbatim>\<open>isOpen()\<close> at time
  60001 changes the breaker.
\<close>

theorem isOpen_resets_failures:
  "snd (isOpen 60001 (recordFailure 0 (recordFailure 0 (recordFailure 0 (recordFailure 0 (recordFailure 0 new_CircuitBreaker))))))
     \<noteq> recordFailure 0 (recordFailure 0 (recordFailure 0 (recordFailure 0 (recordFailure 0 new_CircuitBreaker))))"
  by (simp add: isOpen_def recordFailure_def new_CircuitBreaker_def failureThreshold_def resetTimeout_def)

subsection \<open>Classification\<close>

text \<open>
  Claim C9, amended. An error whose message text contains \<^verbatim>\<open>401\<close>, \<^verbatim>\<open>403\<close> or \<^verbatim>\<open>404\<close>
  anywhere is classified as not retryable, whatever its other properties, the context
  and the type that the classification assigns. The message is the only place where the
  classifier looks for these codes.
\<close>

theorem categorizeError_status_codes:
  "message err = Some m \<Longrightarrow>
   str_includes m ''401'' \<or> str_includes m ''403'' \<or> str_includes m ''404'' \<Longrightarrow>
   \<not> e_retryable (categorizeError err u a ctx now)"
  by (cases "m = []") (auto simp: categorizeError_def Let_def case_prod_beta)

text \<open>An instance: a refused connection whose message carries 403.\<close>

theorem categorizeError_status_codes_witness:
  "\<not> e_retryable (categorizeError
       \<lparr>code = Some ''ECONNREFUSED'', name = Some ''Error'', message = Some ''upstream said 403'',
        status = None, errorType = UNKNOWN_ERROR, retryable = True\<rparr> ''https://a.example/'' 1 ''scraping'' 0)"
  using categorizeError_status_codes[of "\<lparr>code = Some ''ECONNREFUSED'', name = Some ''Error'', message = Some ''upstream said 403'',
        status = None, errorType = UNKNOWN_ERROR, retryable = True\<rparr>" "''upstream said 403''" "''https://a.example/''" 1 "''scraping''" 0]
  by simp

text \<open>
  Claim C9 as stated fails: an error that carries the status 404 in its property
  \<^verbatim>\<open>status\<close> and whose message is \<^verbatim>\<open>Not Found\<close> is classified as retryable.
\<close>

theorem categorizeError_ignores_status:
  "status not_found_error = Some 404
   \<and> e_retryable (categorizeError not_found_error ''https://a.example/'' 1 ''scraping'' 0)"
  by (simp add: not_found_error_def categorizeError_def Let_def)

text \<open>
  Claim C8 fails on the code. The \<^verbatim>\<open>RetryableError\<close> that \<^verbatim>\<open>extractFeatures\<close> throws for
  a client error, built with \<^verbatim>\<open>retryable = false\<close>, is classified as retryable, and the
  \<^verbatim>\<open>RetryableError\<close> of type \<^verbatim>\<open>PARSING_ERROR\<close> that it throws for missing fields is
  classified as \<^verbatim>\<open>AI_EXTRACTION_ERROR\<close>: the context \<^verbatim>\<open>"feature extraction"\<close> matches
  an earlier branch than the one that reads the fields of a \<^verbatim>\<open>RetryableError\<close>.
\<close>

theorem categorizeError_ignores_marker:
  "e_retryable (categorizeError
      (RetryableError AI_EXTRACTION_ERROR ''OpenAI client error: 400 Invalid request'' False)
      ''AI-extraction'' 1 ''feature extraction'' 0)
   \<and> retryable (RetryableError AI_EXTRACTION_ERROR ''OpenAI client error: 400 Invalid request'' False) = False
   \<and> e_type (categorizeError
      (RetryableError PARSING_ERROR ''Missing required fields in AI response: elevator'' True)
      ''AI-extraction'' 1 ''feature extraction'' 0) = AI_EXTRACTION_ERROR"
  by (simp add: categorizeError_def RetryableError_def Let_def)

subsection \<open>Keys that are not URLs\<close>

lemma extractDomain_unparseable: "hostname k = None \<Longrightarrow> extractDomain hostname k = ''unknown''"
  by (simp add: extractDomain_def)

lemma open_at_entry_iff:
  "map_of (circuitBreakers s) (extractDomain hostname u) = Some cb \<Longrightarrow>
   open_at_entry hostname u s \<longleftrightarrow>
     failureThreshold \<le> failures cb \<and> clock (world s) - lastFailureTime cb \<le> resetTimeout"
  by (simp add: open_at_entry_def getCircuitBreaker_def isOpen_fst)

text \<open>
  Claim C10. Two keys that the URL parser rejects are both mapped to the domain
  \<^verbatim>\<open>unknown\<close>. Every failed attempt of a call under the first key is recorded on the
  breaker of \<^verbatim>\<open>unknown\<close> (its failure count grows by the number of attempts, and the
  time of its last failure is that of the thrown error), and a call under the second key
  is rejected without invoking its operation whenever the breaker of \<^verbatim>\<open>unknown\<close> has
  reached the threshold within the reset timeout.
\<close>

theorem unparseable_keys_share_breaker:
  assumes "hostname k1 = None" "hostname k2 = None"
  shows "extractDomain hostname k1 = ''unknown'' \<and> extractDomain hostname k2 = ''unknown''
   \<and> (\<forall>d s1. executeWithRetry hostname cfg op1 k1 ctx1 s = (Inl (ThrowDetailed d), s1) \<longrightarrow>
        (\<exists>cb. map_of (circuitBreakers s1) ''unknown'' = Some cb
            \<and> failures cb = failures (snd (isOpen (clock (world s))
                               (fst (getCircuitBreaker ''unknown'' (circuitBreakers s))))) + attempt d
            \<and> lastFailureTime cb = e_timestamp d \<and> clock (world s1) = e_timestamp d))
   \<and> (\<forall>cb. map_of (circuitBreakers s2) ''unknown'' = Some cb \<and> failureThreshold \<le> failures cb
            \<and> clock (world s2) - lastFailureTime cb \<le> resetTimeout \<longrightarrow>
        executeWithRetry hostname cfg' op2 k2 ctx2 s2 =
          (Inl (ThrowError (RetryableError NETWORK_ERROR
                  ''Circuit breaker is open for domain unknown'' False)), s2))"
proof (intro conjI allI impI)
  show d1: "extractDomain hostname k1 = ''unknown''" using assms(1) by (rule extractDomain_unparseable)
  show d2: "extractDomain hostname k2 = ''unknown''" using assms(2) by (rule extractDomain_unparseable)
  {
    fix d s1 assume "executeWithRetry hostname cfg op1 k1 ctx1 s = (Inl (ThrowDetailed d), s1)"
    from executeWithRetry_detailed[OF this]
    show "\<exists>cb. map_of (circuitBreakers s1) ''unknown'' = Some cb
            \<and> failures cb = failures (snd (isOpen (clock (world s))
                               (fst (getCircuitBreaker ''unknown'' (circuitBreakers s))))) + attempt d
            \<and> lastFailureTime cb = e_timestamp d \<and> clock (world s1) = e_timestamp d"
      unfolding d1 by blast
  }
  {
    fix cb assume a: "map_of (circuitBreakers s2) ''unknown'' = Some cb \<and> failureThreshold \<le> failures cb
            \<and> clock (world s2) - lastFailureTime cb \<le> resetTimeout"
    then have "open_at_entry hostname k2 s2"
      using open_at_entry_iff[of s2 hostname k2 cb] d2 by simp
    from executeWithRetry_open[OF this, of cfg' op2 ctx2]
    show "executeWithRetry hostname cfg' op2 k2 ctx2 s2 =
          (Inl (ThrowError (RetryableError NETWORK_ERROR
                  ''Circuit breaker is open for domain unknown'' False)), s2)"
      unfolding d2 by simp
  }
qed

lemma host_none: "host_example ''AI-extraction'' = None" "host_example ''not a url'' = None"
  by (simp_all add: host_example_def)

lemma always_timeout_retryable:
  "\<exists>e w'. always_timeout w = (Inl e, w') \<and> (\<forall>a t. e_retryable (categorizeError e u a ctx t))"
  by (simp add: always_timeout_def timeout_error_def categorizeError_def Let_def)

text \<open>
  An instance: two calls under the key \<^verbatim>\<open>AI-extraction\<close> that fail three times each are
  followed by a call under another key that is not a URL; it is rejected, and the
  operation has been invoked six times in all.
\<close>

theorem unparseable_keys_share_breaker_witness:
  "\<exists>d1 s1 d2 s2.
     executeWithRetry host_example workerConfig always_timeout ''AI-extraction'' ''feature extraction'' state0
       = (Inl (ThrowDetailed d1), s1)
   \<and> executeWithRetry host_example workerConfig always_timeout ''AI-extraction'' ''feature extraction'' s1
       = (Inl (ThrowDetailed d2), s2)
   \<and> executeWithRetry host_example workerConfig always_timeout ''not a url'' ''scraping'' s2
       = (Inl (ThrowError (RetryableError NETWORK_ERROR
                  ''Circuit breaker is open for domain unknown'' False)), s2)
   \<and> trace s2 = replicate 6 (Invoked ''AI-extraction'')"
proof -
  let ?k = "''AI-extraction''" and ?c = "''feature extraction''"
  note T = unparseable_keys_share_breaker[OF host_none(1) host_none(2)]
  have m: "1 \<le> maxAttempts workerConfig" "maxAttempts workerConfig = 3" by (simp_all add: workerConfig_def)
  have c0: "\<not> open_at_entry host_example ?k state0"
    by (simp add: open_at_entry_def state0_def getCircuitBreaker_def isOpen_def
        new_CircuitBreaker_def failureThreshold_def)
  from executeWithRetry_always_fails[where op = always_timeout and u = ?k and ctx = ?c,
      OF always_timeout_retryable c0 m(1)]
  obtain d1 s1 where r1: "executeWithRetry host_example workerConfig always_timeout ?k ?c state0
       = (Inl (ThrowDetailed d1), s1)" and a1: "attempt d1 = 3"
    and t1: "trace s1 = trace state0 @ replicate 3 (Invoked ?k)"
    using m(2) by auto
  from T[of workerConfig always_timeout ?c state0] r1
  obtain cb1 where cb1: "map_of (circuitBreakers s1) ''unknown'' = Some cb1"
    "failures cb1 = failures (snd (isOpen (clock (world state0))
                               (fst (getCircuitBreaker ''unknown'' (circuitBreakers state0))))) + attempt d1"
    by blast
  have f1: "failures cb1 = 3" using cb1(2) a1
    by (simp add: state0_def getCircuitBreaker_def isOpen_def new_CircuitBreaker_def failureThreshold_def)
  have c1: "\<not> open_at_entry host_example ?k s1"
    using open_at_entry_iff[of s1 host_example ?k cb1] cb1(1) f1
    by (simp add: extractDomain_def host_none failureThreshold_def)
  from executeWithRetry_always_fails[where op = always_timeout and u = ?k and ctx = ?c,
      OF always_timeout_retryable c1 m(1)]
  obtain d2 s2 where r2: "executeWithRetry host_example workerConfig always_timeout ?k ?c s1
       = (Inl (ThrowDetailed d2), s2)" and a2: "attempt d2 = 3"
    and t2: "trace s2 = trace s1 @ replicate 3 (Invoked ?k)"
    using m(2) by auto
  from T[of workerConfig always_timeout ?c s1] r2
  obtain cb2 where cb2: "map_of (circuitBreakers s2) ''unknown'' = Some cb2"
    "failures cb2 = failures (snd (isOpen (clock (world s1))
                               (fst (getCircuitBreaker ''unknown'' (circuitBreakers s1))))) + attempt d2"
    "lastFailureTime cb2 = e_timestamp d2" "clock (world s2) = e_timestamp d2"
    by blast
  have f2: "failures cb2 = 6" using cb2(2) a2 cb1(1) f1
    by (simp add: getCircuitBreaker_def isOpen_def failureThreshold_def)
  have "map_of (circuitBreakers s2) ''unknown'' = Some cb2 \<and> failureThreshold \<le> failures cb2
            \<and> clock (world s2) - lastFailureTime cb2 \<le> resetTimeout"
    using cb2 f2 by (simp add: failureThreshold_def resetTimeout_def)
  with T[where ?s2.0 = s2 and cfg' = workerConfig and ?op2.0 = always_timeout and ?ctx2.0 = "''scraping''"]
  have r3: "executeWithRetry host_example workerConfig always_timeout ''not a url'' ''scraping'' s2
       = (Inl (ThrowError (RetryableError NETWORK_ERROR
                  ''Circuit breaker is open for domain unknown'' False)), s2)"
    by blast
  have "trace s2 = replicate 6 (Invoked ?k)"
    using t1 t2 by (simp add: state0_def replicate_add[symmetric])
  with r1 r2 r3 show ?thesis by blast
qed

subsection \<open>The ghost log\<close>

lemma processed_urls_append [simp]: "processed_urls (xs @ ys) = processed_urls xs @ processed_urls ys"
  by (induction xs rule: processed_urls.induct) simp_all
lemma inserted_urls_append [simp]: "inserted_urls (xs @ ys) = inserted_urls xs @ inserted_urls ys"
  by (induction xs rule: inserted_urls.induct) simp_all
lemma invoked_keys_append [simp]: "invoked_keys (xs @ ys) = invoked_keys xs @ invoked_keys ys"
  by (induction xs rule: invoked_keys.induct) simp_all
lemma milestones_append [simp]: "milestones (xs @ ys) = milestones xs @ milestones ys"
  by (induction xs rule: milestones.induct) simp_all

lemma projections_replicate_Invoked [simp]:
  "processed_urls (replicate n (Invoked k)) = []"
  "inserted_urls (replicate n (Invoked k)) = []"
  "milestones (replicate n (Invoked k)) = []"
  "invoked_keys (replicate n (Invoked k)) = replicate n k"
  by (induction n) simp_all

lemma projections_map_Inserted [simp]:
  "processed_urls (map Inserted us) = []"
  "inserted_urls (map Inserted us) = us"
  "milestones (map Inserted us) = map Inserted us"
  "invoked_keys (map Inserted us) = []"
  by (induction us) simp_all

lemma projections_map_Inserted_comp [simp]:
  "processed_urls (map (Inserted \<circ> f) xs) = []"
  "inserted_urls (map (Inserted \<circ> f) xs) = map f xs"
  "milestones (map (Inserted \<circ> f) xs) = map (Inserted \<circ> f) xs"
  "invoked_keys (map (Inserted \<circ> f) xs) = []"
  by (induction xs) simp_all

lemma projections_map_Processed [simp]:
  "processed_urls (map Processed us) = us"
  "inserted_urls (map Processed us) = []"
  "milestones (map Processed us) = map Processed us"
  "invoked_keys (map Processed us) = []"
  by (induction us) simp_all

lemma projections_milestones [simp]:
  "processed_urls (milestones es) = processed_urls es"
  "inserted_urls (milestones es) = inserted_urls es"
  by (induction es rule: milestones.induct) simp_all

subsection \<open>What executeWithRetry leaves alone\<close>

text \<open>
  A call appends invocations under its key to the log and does not touch the storage;
  its result and its effect on the rest of the state do not depend on the storage.
\<close>

lemma attempt_loop_frame:
  "\<exists>n. trace (snd (attempt_loop cfg op u ctx dm a le s)) = trace s @ replicate n (Invoked u)
       \<and> storage (snd (attempt_loop cfg op u ctx dm a le s)) = storage s"
proof (induction "maxAttempts cfg + 1 - a" arbitrary: a le s)
  case 0
  then have "\<not> a \<le> maxAttempts cfg" by simp
  then have "snd (attempt_loop cfg op u ctx dm a le s) = s" by (simp add: attempt_loop_exit)
  then show ?case by (intro exI[of _ 0]) simp
next
  case (Suc k)
  then have le: "a \<le> maxAttempts cfg" by simp
  obtain x w where ow: "op (world s) = (x, w)" by fastforce
  show ?case
  proof (cases x)
    case (Inr v)
    have "snd (attempt_loop cfg op u ctx dm a le s) =
        on_breaker dm recordSuccess (s\<lparr>world := w, trace := trace s @ [Invoked u]\<rparr>)"
      using attempt_loop_success[where op = op and s = s and le = le and dm = dm and u = u
          and ctx = ctx, OF le] ow Inr by simp
    then show ?thesis by (intro exI[of _ 1]) simp
  next
    case (Inl e)
    show ?thesis
    proof (cases "\<not> e_retryable (categorizeError e u a ctx (clock w)) \<or> a = maxAttempts cfg")
      case True
      have "snd (attempt_loop cfg op u ctx dm a le s) = failed_state dm u w s"
        using attempt_loop_stop[where op = op and s = s and le = le and dm = dm, OF le _ True]
          ow Inl by simp
      then show ?thesis by (intro exI[of _ 1]) simp
    next
      case False
      let ?d = "Some (categorizeError e u a ctx (clock w))"
      let ?s1 = "retry_state cfg a (failed_state dm u w s)"
      have eq: "attempt_loop cfg op u ctx dm a le s = attempt_loop cfg op u ctx dm (a + 1) ?d ?s1"
        using attempt_loop_retry[where op = op and s = s and le = le and dm = dm, OF le]
          ow Inl False by simp
      have k: "k = maxAttempts cfg + 1 - (a + 1)" using Suc.hyps(2) by simp
      from Suc.hyps(1)[OF k, of ?d ?s1]
      obtain n where n: "trace (snd (attempt_loop cfg op u ctx dm (a + 1) ?d ?s1))
          = trace ?s1 @ replicate n (Invoked u)"
         "storage (snd (attempt_loop cfg op u ctx dm (a + 1) ?d ?s1)) = storage ?s1"
        by blast
      have "trace (snd (attempt_loop cfg op u ctx dm a le s)) = trace s @ replicate (Suc n) (Invoked u)"
        unfolding eq n(1) by simp
      moreover have "storage (snd (attempt_loop cfg op u ctx dm a le s)) = storage s"
        unfolding eq n(2) by simp
      ultimately show ?thesis by blast
    qed
  qed
qed

lemma executeWithRetry_frame:
  "\<exists>n. trace (snd (executeWithRetry hostname cfg op u ctx s)) = trace s @ replicate n (Invoked u)
       \<and> storage (snd (executeWithRetry hostname cfg op u ctx s)) = storage s"
proof (cases "open_at_entry hostname u s")
  case True
  then have "snd (executeWithRetry hostname cfg op u ctx s) = s" by (simp add: executeWithRetry_open)
  then have "trace (snd (executeWithRetry hostname cfg op u ctx s)) = trace s @ replicate 0 (Invoked u)
       \<and> storage (snd (executeWithRetry hostname cfg op u ctx s)) = storage s" by simp
  then show ?thesis by blast
next
  case False
  then show ?thesis
    using attempt_loop_frame[of cfg op u ctx "extractDomain hostname u" 1 None "entry_state hostname u s"]
    by (simp add: executeWithRetry_unfold)
qed

lemma same_but_storage_steps:
  assumes "same_but_storage s t"
  shows "same_but_storage (failed_state dm u w s) (failed_state dm u w t)"
    and "same_but_storage (retry_state cfg a s) (retry_state cfg a t)"
    and "same_but_storage (entry_state hostname u s) (entry_state hostname u t)"
    and "same_but_storage (on_breaker dm f (s\<lparr>world := w, trace := trace s @ [Invoked u]\<rparr>))
           (on_breaker dm f (t\<lparr>world := w, trace := trace t @ [Invoked u]\<rparr>))"
    and "open_at_entry hostname u s = open_at_entry hostname u t"
  using assms
  by (simp_all add: same_but_storage_def failed_state_def retry_state_def entry_state_def
      on_breaker_def open_at_entry_def Let_def)

lemma attempt_loop_same:
  "same_but_storage s t \<Longrightarrow>
   fst (attempt_loop cfg op u ctx dm a le s) = fst (attempt_loop cfg op u ctx dm a le t)
   \<and> same_but_storage (snd (attempt_loop cfg op u ctx dm a le s)) (snd (attempt_loop cfg op u ctx dm a le t))"
proof (induction "maxAttempts cfg + 1 - a" arbitrary: a le s t)
  case 0
  then have "\<not> a \<le> maxAttempts cfg" by simp
  then show ?case using "0.prems" by (simp add: attempt_loop_exit)
next
  case (Suc k)
  then have le: "a \<le> maxAttempts cfg" by simp
  have w: "world t = world s" using Suc.prems by (simp add: same_but_storage_def)
  obtain x w where ow: "op (world s) = (x, w)" by fastforce
  then have ow': "op (world t) = (x, w)" using w by simp
  show ?case
  proof (cases x)
    case (Inr v)
    then show ?thesis
      using attempt_loop_success[where op = op and s = s and le = le and dm = dm and u = u and ctx = ctx, OF le]
        attempt_loop_success[where op = op and s = t and le = le and dm = dm and u = u and ctx = ctx, OF le]
        ow ow' same_but_storage_steps(4)[OF Suc.prems]
      by simp
  next
    case (Inl e)
    show ?thesis
    proof (cases "\<not> e_retryable (categorizeError e u a ctx (clock w)) \<or> a = maxAttempts cfg")
      case True
      then show ?thesis
        using attempt_loop_stop[where op = op and s = s and le = le and dm = dm, OF le _ True]
          attempt_loop_stop[where op = op and s = t and le = le and dm = dm, OF le _ True]
          ow ow' Inl same_but_storage_steps(1)[OF Suc.prems]
        by simp
    next
      case False
      let ?d = "Some (categorizeError e u a ctx (clock w))"
      let ?s1 = "retry_state cfg a (failed_state dm u w s)"
      let ?t1 = "retry_state cfg a (failed_state dm u w t)"
      have eqs: "attempt_loop cfg op u ctx dm a le s = attempt_loop cfg op u ctx dm (a + 1) ?d ?s1"
        using attempt_loop_retry[where op = op and s = s and le = le and dm = dm, OF le] ow Inl False by simp
      have eqt: "attempt_loop cfg op u ctx dm a le t = attempt_loop cfg op u ctx dm (a + 1) ?d ?t1"
        using attempt_loop_retry[where op = op and s = t and le = le and dm = dm, OF le] ow' Inl False by simp
      have k: "k = maxAttempts cfg + 1 - (a + 1)" using Suc.hyps(2) by simp
      have "same_but_storage ?s1 ?t1"
        by (intro same_but_storage_steps(1,2) Suc.prems)
      from Suc.hyps(1)[OF k this] eqs eqt show ?thesis by simp
    qed
  qed
qed

lemma executeWithRetry_same:
  assumes "same_but_storage s t"
  shows "fst (executeWithRetry hostname cfg op u ctx s) = fst (executeWithRetry hostname cfg op u ctx t)
   \<and> same_but_storage (snd (executeWithRetry hostname cfg op u ctx s)) (snd (executeWithRetry hostname cfg op u ctx t))"
  using same_but_storage_steps(3,5)[OF assms, of hostname u]
    attempt_loop_same[of "entry_state hostname u s" "entry_state hostname u t" cfg op u ctx "extractDomain hostname u" 1 None]
  by (simp add: executeWithRetry_unfold)

subsection \<open>The batch run\<close>

lemma processUrl_cases:
  obtains (scrape_failed) err s1 where
      "scrapeUrl env u s = (Inl err, s1)"
      "processUrl env u wid s =
         (failed_result u (clock (world s)) (errorMessage_of err), s1\<lparr>trace := trace s1 @ [Processed u]\<rparr>)"
  | (extract_failed) html s1 err s2 where
      "scrapeUrl env u s = (Inr html, s1)" "extractFeatures env html s1 = (Inl err, s2)"
      "processUrl env u wid s =
         (failed_result u (clock (world s)) (errorMessage_of err), s2\<lparr>trace := trace s2 @ [Processed u]\<rparr>)"
  | (no_features) html s1 s2 where
      "scrapeUrl env u s = (Inr html, s1)" "extractFeatures env html s1 = (Inr None, s2)"
      "processUrl env u wid s =
         (failed_result u (clock (world s)) ''Failed to extract accessibility features'',
          s2\<lparr>trace := trace s2 @ [Processed u]\<rparr>)"
  | (succeeded) html s1 features s2 where
      "scrapeUrl env u s = (Inr html, s1)" "extractFeatures env html s1 = (Inr (Some features), s2)"
      "processUrl env u wid s =
         (\<lparr>url = u, success = True, data = Some features, error = None, timestamp = clock (world s)\<rparr>,
          s2\<lparr>trace := trace s2 @ [Processed u]\<rparr>)"
proof -
  obtain r1 s1 where a: "scrapeUrl env u s = (r1, s1)" by fastforce
  show thesis
  proof (cases r1)
    case (Inl err)
    with a show ?thesis by (intro scrape_failed[of err s1]) (simp_all add: processUrl_def Let_def)
  next
    case (Inr html)
    obtain r2 s2 where b: "extractFeatures env html s1 = (r2, s2)" by fastforce
    show ?thesis
    proof (cases r2)
      case (Inl err)
      with a b Inr show ?thesis
        by (intro extract_failed[of html s1 err s2]) (simp_all add: processUrl_def Let_def)
    next
      case r: (Inr fo)
      show ?thesis
      proof (cases fo)
        case None
        with a b Inr r show ?thesis
          by (intro no_features[of html s1 s2]) (simp_all add: processUrl_def Let_def)
      next
        case (Some features)
        with a b Inr r show ?thesis
          by (intro succeeded[of html s1 features s2]) (simp_all add: processUrl_def Let_def)
      qed
    qed
  qed
qed

lemma scrapeUrl_frame:
  "scrapeUrl env u s = (r, s1) \<Longrightarrow>
   \<exists>n. trace s1 = trace s @ replicate n (Invoked u) \<and> storage s1 = storage s"
  using executeWithRetry_frame[of "hostname_of env" workerConfig "scrapeOperation env u" u "''scraping''" s]
  by (simp add: scrapeUrl_def)

lemma extractFeatures_frame:
  "extractFeatures env html s = (r, s1) \<Longrightarrow>
   \<exists>n. trace s1 = trace s @ replicate n (Invoked ''AI-extraction'') \<and> storage s1 = storage s"
  using executeWithRetry_frame[of "hostname_of env" workerConfig "extractOperation env html"
      "''AI-extraction''" "''feature extraction''" s]
  by (simp add: extractFeatures_def)

lemma processUrl_frame:
  assumes "processUrl env u wid s = (r, s')"
  shows "url r = u \<and> storage s' = storage s
       \<and> (success r \<longleftrightarrow> data r \<noteq> None) \<and> (success r \<longleftrightarrow> error r = None)
       \<and> (\<exists>n m. trace s' = trace s @ replicate n (Invoked u)
                     @ replicate m (Invoked ''AI-extraction'') @ [Processed u])"
proof (cases rule: processUrl_cases[of env u s wid])
  case (scrape_failed err s1)
  from scrapeUrl_frame[OF scrape_failed(1)] obtain n where
    "trace s1 = trace s @ replicate n (Invoked u)" "storage s1 = storage s" by blast
  then have "trace s' = trace s @ replicate n (Invoked u) @ replicate 0 (Invoked ''AI-extraction'') @ [Processed u]"
    "storage s' = storage s" "url r = u" "\<not> success r" "data r = None" "error r \<noteq> None"
    using scrape_failed(2) assms by (auto simp: failed_result_def)
  then show ?thesis by blast
next
  case (extract_failed html s1 err s2)
  from scrapeUrl_frame[OF extract_failed(1)] obtain n where
    n: "trace s1 = trace s @ replicate n (Invoked u)" "storage s1 = storage s" by blast
  from extractFeatures_frame[OF extract_failed(2)] obtain m where
    m: "trace s2 = trace s1 @ replicate m (Invoked ''AI-extraction'')" "storage s2 = storage s1" by blast
  from n m have "trace s' = trace s @ replicate n (Invoked u) @ replicate m (Invoked ''AI-extraction'') @ [Processed u]"
    "storage s' = storage s" "url r = u" "\<not> success r" "data r = None" "error r \<noteq> None"
    using extract_failed(3) assms by (auto simp: failed_result_def)
  then show ?thesis by blast
next
  case (no_features html s1 s2)
  from scrapeUrl_frame[OF no_features(1)] obtain n where
    n: "trace s1 = trace s @ replicate n (Invoked u)" "storage s1 = storage s" by blast
  from extractFeatures_frame[OF no_features(2)] obtain m where
    m: "trace s2 = trace s1 @ replicate m (Invoked ''AI-extraction'')" "storage s2 = storage s1" by blast
  from n m have "trace s' = trace s @ replicate n (Invoked u) @ replicate m (Invoked ''AI-extraction'') @ [Processed u]"
    "storage s' = storage s" "url r = u" "\<not> success r" "data r = None" "error r \<noteq> None"
    using no_features(3) assms by (auto simp: failed_result_def)
  then show ?thesis by blast
next
  case (succeeded html s1 features s2)
  from scrapeUrl_frame[OF succeeded(1)] obtain n where
    n: "trace s1 = trace s @ replicate n (Invoked u)" "storage s1 = storage s" by blast
  from extractFeatures_frame[OF succeeded(2)] obtain m where
    m: "trace s2 = trace s1 @ replicate m (Invoked ''AI-extraction'')" "storage s2 = storage s1" by blast
  from n m have "trace s' = trace s @ replicate n (Invoked u) @ replicate m (Invoked ''AI-extraction'') @ [Processed u]"
    "storage s' = storage s" "url r = u" "success r" "data r \<noteq> None" "error r = None"
    using succeeded(3) assms by auto
  then show ?thesis by blast
qed

lemma processUrl_same:
  assumes "same_but_storage s t" "same_operations env env'"
  shows "fst (processUrl env u wid s) = fst (processUrl env' u wid t)
       \<and> same_but_storage (snd (processUrl env u wid s)) (snd (processUrl env' u wid t))"
proof -
  have w: "world s = world t" using assms(1) by (simp add: same_but_storage_def)
  have ops: "hostname_of env' = hostname_of env" "scrapeOperation env' = scrapeOperation env"
    "extractOperation env' = extractOperation env"
    using assms(2) by (simp_all add: same_operations_def)
  let ?a = "scrapeUrl env u s" and ?a' = "scrapeUrl env' u t"
  have a: "fst ?a = fst ?a'" "same_but_storage (snd ?a) (snd ?a')"
    using executeWithRetry_same[OF assms(1), of "hostname_of env" workerConfig "scrapeOperation env u" u "''scraping''"]
    by (simp_all add: scrapeUrl_def ops)
  have b: "fst (extractFeatures env html (snd ?a)) = fst (extractFeatures env' html (snd ?a'))"
      "same_but_storage (snd (extractFeatures env html (snd ?a))) (snd (extractFeatures env' html (snd ?a')))" for html
    using executeWithRetry_same[OF a(2), of "hostname_of env" workerConfig "extractOperation env html"
        "''AI-extraction''" "''feature extraction''"]
    by (simp_all add: extractFeatures_def ops)
  obtain r1 s1 where p1: "?a = (r1, s1)" by fastforce
  obtain s1' where q1: "?a' = (r1, s1')" using a(1) p1 by (cases ?a') simp
  have s1: "same_but_storage s1 s1'" using a(2) p1 q1 by simp
  show ?thesis
  proof (cases r1)
    case (Inl err)
    then show ?thesis using p1 q1 s1 w
      by (simp add: processUrl_def Let_def same_but_storage_def)
  next
    case (Inr html)
    obtain r2 s2 where p2: "extractFeatures env html s1 = (r2, s2)" by fastforce
    obtain s2' where q2: "extractFeatures env' html s1' = (r2, s2')"
      using b(1)[of html] p1 q1 p2 by (cases "extractFeatures env' html s1'") simp
    have s2: "same_but_storage s2 s2'" using b(2)[of html] p1 q1 p2 q2 by simp
    show ?thesis using Inr p1 q1 p2 q2 s2 w
      by (simp add: processUrl_def Let_def same_but_storage_def split: sum.splits option.splits)
  qed
qed

lemma processBatch_frame:
  "processBatch env mc i idx batch s = (rs, s') \<Longrightarrow>
   map url rs = batch \<and> storage s' = storage s
   \<and> milestones (trace s') = milestones (trace s) @ map Processed batch
   \<and> set (invoked_keys (trace s')) \<subseteq> set (invoked_keys (trace s)) \<union> set batch \<union> {''AI-extraction''}
   \<and> (\<forall>r \<in> set rs. (success r \<longleftrightarrow> data r \<noteq> None) \<and> (success r \<longleftrightarrow> error r = None))"
proof (induction batch arbitrary: idx s rs s')
  case Nil
  then show ?case by auto
next
  case (Cons u us)
  obtain r s1 where p: "processUrl env u ((i + idx) mod mc) s = (r, s1)" by fastforce
  obtain rs' s2 where b: "processBatch env mc i (idx + 1) us s1 = (rs', s2)" by fastforce
  from Cons.prems p b have eq: "rs = r # rs'" "s' = s2" by simp_all
  note pf = processUrl_frame[OF p]
  have f: "url r = u" "storage s1 = storage s" "success r \<longleftrightarrow> data r \<noteq> None"
    "success r \<longleftrightarrow> error r = None"
    using pf by blast+
  from pf have "\<exists>n m. trace s1 = trace s @ replicate n (Invoked u)
      @ replicate m (Invoked ''AI-extraction'') @ [Processed u]"
    by (elim conjE)
  then obtain n m where tr: "trace s1 = trace s @ replicate n (Invoked u)
      @ replicate m (Invoked ''AI-extraction'') @ [Processed u]"
    by (elim exE)
  have t1: "milestones (trace s1) = milestones (trace s) @ [Processed u]"
    "set (invoked_keys (trace s1)) \<subseteq> set (invoked_keys (trace s)) \<union> {u} \<union> {''AI-extraction''}"
    using tr by auto
  from Cons.IH[OF b] t1 f show ?case unfolding eq by auto
qed

lemma processBatch_same:
  assumes "same_operations env env'"
  shows "same_but_storage s t \<Longrightarrow>
     fst (processBatch env mc i idx batch s) = fst (processBatch env' mc i idx batch t)
     \<and> same_but_storage (snd (processBatch env mc i idx batch s)) (snd (processBatch env' mc i idx batch t))"
proof (induction batch arbitrary: idx s t)
  case Nil
  then show ?case by simp
next
  case (Cons u us)
  from processUrl_same[OF Cons.prems assms, of u "(i + idx) mod mc"]
  have 1: "fst (processUrl env u ((i + idx) mod mc) s) = fst (processUrl env' u ((i + idx) mod mc) t)"
    "same_but_storage (snd (processUrl env u ((i + idx) mod mc) s)) (snd (processUrl env' u ((i + idx) mod mc) t))"
    by simp_all
  from Cons.IH[OF 1(2), of "idx + 1"] 1(1) show ?case
    by (simp add: case_prod_beta Let_def)
qed

lemma saveResults_frame:
  "trace (saveResults env rs s) =
     trace s @ map Inserted (map url (filter (\<lambda>r. success r \<and> data r \<noteq> None) rs))
   \<and> circuitBreakers (saveResults env rs s) = circuitBreakers s
   \<and> world (saveResults env rs s) = world s"
  by (induction rs arbitrary: s) (auto simp: Let_def case_prod_beta split: option.splits)

lemma saveResults_same:
  "same_but_storage s t \<Longrightarrow> same_but_storage (saveResults env rs s) (saveResults env' rs t)"
  using saveResults_frame[of env rs s] saveResults_frame[of env' rs t]
  by (simp add: same_but_storage_def)

lemma batch_step_frame:
  assumes "batch_step env mc newUrls i results s = (results', s')"
  shows "\<exists>batchResults. results' = results @ batchResults
     \<and> map url batchResults = take mc (drop i newUrls)
     \<and> milestones (trace s') = milestones (trace s) @ map Processed (take mc (drop i newUrls))
                                  @ map Inserted (map url (filter success batchResults))
                                  @ (if i + mc < length newUrls then [Paused] else [])
     \<and> set (invoked_keys (trace s')) \<subseteq>
           set (invoked_keys (trace s)) \<union> set (take mc (drop i newUrls)) \<union> {''AI-extraction''}
     \<and> (\<forall>r \<in> set batchResults. (success r \<longleftrightarrow> data r \<noteq> None) \<and> (success r \<longleftrightarrow> error r = None))"
proof -
  let ?batch = "take mc (drop i newUrls)"
  let ?pause = "if i + mc < length newUrls then [Paused] else []"
  obtain brs s1 where p: "processBatch env mc i 0 ?batch s = (brs, s1)" by fastforce
  let ?s2 = "saveResults env brs s1"
  have res: "results' = results @ brs"
    using assms p by (auto simp: batch_step_def Let_def split: if_splits)
  have tr: "trace s' = trace ?s2 @ ?pause"
    using assms p by (auto simp: batch_step_def Let_def split: if_splits)
  note f = processBatch_frame[OF p]
  have flt: "filter (\<lambda>r. success r \<and> data r \<noteq> None) brs = filter success brs"
    using f by (intro filter_cong) auto
  have "trace ?s2 = trace s1 @ map Inserted (map url (filter success brs))"
    using saveResults_frame[of env brs s1] flt by simp
  then have t2: "trace s' = trace s1 @ map Inserted (map url (filter success brs)) @ ?pause"
    using tr by simp
  have "milestones (trace s') = milestones (trace s) @ map Processed ?batch
                                  @ map Inserted (map url (filter success brs)) @ ?pause"
    unfolding t2 using f by (simp del: map_map)
  moreover have "set (invoked_keys (trace s')) \<subseteq>
      set (invoked_keys (trace s)) \<union> set ?batch \<union> {''AI-extraction''}"
    unfolding t2 using f by (simp del: map_map)
  ultimately show ?thesis using res f by blast
qed

lemma batch_step_same:
  assumes "same_operations env env'" "same_but_storage s t"
  shows "fst (batch_step env mc newUrls i results s) = fst (batch_step env' mc newUrls i results t)
     \<and> same_but_storage (snd (batch_step env mc newUrls i results s)) (snd (batch_step env' mc newUrls i results t))"
proof -
  let ?batch = "take mc (drop i newUrls)"
  let ?p = "processBatch env mc i 0 ?batch s" and ?p' = "processBatch env' mc i 0 ?batch t"
  from processBatch_same[OF assms, of mc i 0 ?batch]
  have 1: "fst ?p = fst ?p'" "same_but_storage (snd ?p) (snd ?p')" by simp_all
  from saveResults_same[OF 1(2), of env "fst ?p" env']
  have 2: "same_but_storage (saveResults env (fst ?p) (snd ?p)) (saveResults env' (fst ?p) (snd ?p'))" .
  then have 3: "same_but_storage
       ((saveResults env (fst ?p) (snd ?p))
          \<lparr>world := sleep 1000 (world (saveResults env (fst ?p) (snd ?p))),
           trace := trace (saveResults env (fst ?p) (snd ?p)) @ [Paused]\<rparr>)
       ((saveResults env' (fst ?p) (snd ?p'))
          \<lparr>world := sleep 1000 (world (saveResults env' (fst ?p) (snd ?p'))),
           trace := trace (saveResults env' (fst ?p) (snd ?p')) @ [Paused]\<rparr>)"
    by (simp add: same_but_storage_def)
  show ?thesis
  proof (cases "i + mc < length newUrls")
    case True
    then show ?thesis using 1(1) 3 by (simp add: batch_step_def Let_def case_prod_beta)
  next
    case False
    then show ?thesis using 1(1) 2 by (simp add: batch_step_def Let_def case_prod_beta)
  qed
qed

lemma drop_window: "take mc (drop i xs) @ drop (i + mc) xs = drop i xs"
  by (metis append_take_drop_id drop_drop add.commute)

lemma batch_loop_frame:
  assumes mc: "0 < mc"
  shows "\<exists>res s'. batch_loop env mc newUrls i results s = Some (res, s')
     \<and> map url res = map url results @ drop i newUrls
     \<and> processed_urls (trace s') = processed_urls (trace s) @ drop i newUrls
     \<and> set (inserted_urls (trace s')) \<subseteq> set (inserted_urls (trace s)) \<union> set (drop i newUrls)
     \<and> set (invoked_keys (trace s')) \<subseteq>
           set (invoked_keys (trace s)) \<union> set (drop i newUrls) \<union> {''AI-extraction''}"
proof (induction "length newUrls - i" arbitrary: i results s rule: less_induct)
  case less
  show ?case
  proof (cases "i < length newUrls")
    case False
    then show ?thesis by (subst batch_loop.simps) auto
  next
    case True
    obtain results1 s1 where st: "batch_step env mc newUrls i results s = (results1, s1)" by fastforce
    let ?batch = "take mc (drop i newUrls)"
    from batch_step_frame[OF st] obtain brs where
      f: "results1 = results @ brs" "map url brs = ?batch"
         "milestones (trace s1) = milestones (trace s) @ map Processed ?batch
                                  @ map Inserted (map url (filter success brs))
                                  @ (if i + mc < length newUrls then [Paused] else [])"
         "set (invoked_keys (trace s1)) \<subseteq> set (invoked_keys (trace s)) \<union> set ?batch \<union> {''AI-extraction''}"
      by (elim exE conjE)
    have p1: "processed_urls (trace s1) = processed_urls (trace s) @ ?batch"
    proof -
      have "processed_urls (milestones (trace s1)) = processed_urls (trace s) @ ?batch"
        unfolding f(3) by simp
      then show ?thesis by simp
    qed
    have i1: "set (inserted_urls (trace s1)) \<subseteq> set (inserted_urls (trace s)) \<union> set ?batch"
    proof -
      have "inserted_urls (milestones (trace s1)) =
          inserted_urls (trace s) @ map url (filter success brs)"
        unfolding f(3) by simp
      moreover have "set (map url (filter success brs)) \<subseteq> set (map url brs)" by auto
      ultimately show ?thesis unfolding f(2) by auto
    qed
    have less': "length newUrls - (i + mc) < length newUrls - i" using True mc by simp
    from less.hyps[OF less', of results1 s1] obtain res s' where
      r: "batch_loop env mc newUrls (i + mc) results1 s1 = Some (res, s')"
         "map url res = map url results1 @ drop (i + mc) newUrls"
         "processed_urls (trace s') = processed_urls (trace s1) @ drop (i + mc) newUrls"
         "set (inserted_urls (trace s')) \<subseteq> set (inserted_urls (trace s1)) \<union> set (drop (i + mc) newUrls)"
         "set (invoked_keys (trace s')) \<subseteq>
           set (invoked_keys (trace s1)) \<union> set (drop (i + mc) newUrls) \<union> {''AI-extraction''}"
      by blast
    have un: "set ?batch \<union> set (drop (i + mc) newUrls) = set (drop i newUrls)"
      using drop_window[of mc i newUrls] by (metis set_append)
    have "batch_loop env mc newUrls i results s = Some (res, s')"
      using True st r(1) by (subst batch_loop.simps) simp
    moreover have "map url res = map url results @ drop i newUrls"
      using r(2) f(1,2) drop_window[of mc i newUrls] by simp
    moreover have "processed_urls (trace s') = processed_urls (trace s) @ drop i newUrls"
      using r(3) p1 drop_window[of mc i newUrls] by simp
    moreover have "set (inserted_urls (trace s')) \<subseteq> set (inserted_urls (trace s)) \<union> set (drop i newUrls)"
      using r(4) i1 un by blast
    moreover have "set (invoked_keys (trace s')) \<subseteq>
           set (invoked_keys (trace s)) \<union> set (drop i newUrls) \<union> {''AI-extraction''}"
      using r(5) f(4) un by blast
    ultimately show ?thesis by blast
  qed
qed

lemma batch_loop_same:
  assumes mc: "0 < mc" and ops: "same_operations env env'"
  shows "same_but_storage s t \<Longrightarrow>
    \<exists>res s' t'. batch_loop env mc newUrls i results s = Some (res, s')
       \<and> batch_loop env' mc newUrls i results t = Some (res, t') \<and> same_but_storage s' t'"
proof (induction "length newUrls - i" arbitrary: i results s t rule: less_induct)
  case less
  show ?case
  proof (cases "i < length newUrls")
    case False
    have "batch_loop env mc newUrls i results s = Some (results, s)"
      "batch_loop env' mc newUrls i results t = Some (results, t)"
      using False by (subst batch_loop.simps, simp)+
    with less.prems show ?thesis by blast
  next
    case True
    obtain results1 s1 where st: "batch_step env mc newUrls i results s = (results1, s1)" by fastforce
    from batch_step_same[OF ops less.prems, of mc newUrls i results] st
    obtain t1 where st': "batch_step env' mc newUrls i results t = (results1, t1)"
      and s1: "same_but_storage s1 t1"
      by (cases "batch_step env' mc newUrls i results t") simp
    have less': "length newUrls - (i + mc) < length newUrls - i" using True mc by simp
    from less.hyps[OF less' s1, of results1] obtain res s' t' where
      r: "batch_loop env mc newUrls (i + mc) results1 s1 = Some (res, s')"
         "batch_loop env' mc newUrls (i + mc) results1 t1 = Some (res, t')" "same_but_storage s' t'"
      by blast
    have "batch_loop env mc newUrls i results s = Some (res, s')"
      using True st r(1) by (subst batch_loop.simps) simp
    moreover have "batch_loop env' mc newUrls i results t = Some (res, t')"
      using True st' r(2) by (subst batch_loop.simps) simp
    ultimately show ?thesis using r(3) by blast
  qed
qed

lemma getRetryStats_frame:
  "trace (snd (getRetryStats s)) = trace s" "storage (snd (getRetryStats s)) = storage s"
  by (simp_all add: getRetryStats_def getStats_def Let_def)

lemma scrapeUrls_frame:
  assumes "0 < mc"
  shows "\<exists>results s'. scrapeUrls env mc urls s = Some (results, s')
     \<and> map url results = filter (\<lambda>u. \<not> urlExists env (storage s) u) urls
     \<and> processed_urls (trace s') =
         processed_urls (trace s) @ filter (\<lambda>u. \<not> urlExists env (storage s) u) urls
     \<and> set (inserted_urls (trace s')) \<subseteq>
         set (inserted_urls (trace s)) \<union> set (filter (\<lambda>u. \<not> urlExists env (storage s) u) urls)
     \<and> set (invoked_keys (trace s')) \<subseteq>
         set (invoked_keys (trace s)) \<union> set (filter (\<lambda>u. \<not> urlExists env (storage s) u) urls)
           \<union> {''AI-extraction''}"
proof -
  let ?new = "filter (\<lambda>u. \<not> urlExists env (storage s) u) urls"
  show ?thesis
  proof (cases "?new = []")
    case True
    then show ?thesis by (auto simp: scrapeUrls_def)
  next
    case False
    from batch_loop_frame[OF assms, of env ?new 0 "[]" s] obtain res s1 where
      r: "batch_loop env mc ?new 0 [] s = Some (res, s1)" "map url res = ?new"
         "processed_urls (trace s1) = processed_urls (trace s) @ ?new"
         "set (inserted_urls (trace s1)) \<subseteq> set (inserted_urls (trace s)) \<union> set ?new"
         "set (invoked_keys (trace s1)) \<subseteq> set (invoked_keys (trace s)) \<union> set ?new \<union> {''AI-extraction''}"
      by auto
    have "scrapeUrls env mc urls s = Some (res, snd (getRetryStats s1))"
      using False r(1) by (simp add: scrapeUrls_def Let_def)
    with r(2-5) show ?thesis by (simp add: getRetryStats_frame)
  qed
qed

lemma scrapeUrls_insertHotel:
  assumes "0 < mc"
  shows "\<exists>results s' t'. scrapeUrls env mc urls s = Some (results, s')
     \<and> scrapeUrls (env\<lparr>insertHotel := ins\<rparr>) mc urls s = Some (results, t')
     \<and> same_but_storage s' t'"
proof -
  let ?env' = "env\<lparr>insertHotel := ins\<rparr>"
  let ?new = "filter (\<lambda>u. \<not> urlExists env (storage s) u) urls"
  have ops: "same_operations env ?env'" by (simp add: same_operations_def)
  have refl: "same_but_storage s s" by (simp add: same_but_storage_def)
  show ?thesis
  proof (cases "?new = []")
    case True
    then show ?thesis using refl by (simp add: scrapeUrls_def)
  next
    case False
    from batch_loop_same[OF assms ops refl, of ?new 0 "[]"] obtain res s1 t1 where
      r: "batch_loop env mc ?new 0 [] s = Some (res, s1)"
         "batch_loop ?env' mc ?new 0 [] s = Some (res, t1)" "same_but_storage s1 t1"
      by blast
    have "same_but_storage (snd (getRetryStats s1)) (snd (getRetryStats t1))"
      using r(3) by (simp add: getRetryStats_def getStats_def Let_def same_but_storage_def)
    moreover have "scrapeUrls env mc urls s = Some (res, snd (getRetryStats s1))"
      using False r(1) by (simp add: scrapeUrls_def Let_def)
    moreover have "scrapeUrls ?env' mc urls s = Some (res, snd (getRetryStats t1))"
      using False r(2) by (simp add: scrapeUrls_def Let_def)
    ultimately show ?thesis by blast
  qed
qed

text \<open>
  Claim C5. For every list of URLs and every positive \<open>maxConcurrent\<close>, whatever the
  operations do, \<^verbatim>\<open>scrapeUrls\<close> returns, and it returns exactly one result per URL that
  the storage does not hold at the start, in the order of the list; \<^verbatim>\<open>processUrl\<close> runs
  for these URLs and no other, \<^verbatim>\<open>insertHotel\<close> is called for these URLs only, and an
  operation is invoked only under one of these URLs or under the key \<^verbatim>\<open>AI-extraction\<close>.
\<close>

theorem scrapeUrls_skips_done_items:
  assumes "0 < maxConcurrent"
  shows "\<exists>results s'. scrapeUrls env maxConcurrent urls s = Some (results, s')
     \<and> map url results = filter (\<lambda>u. \<not> urlExists env (storage s) u) urls
     \<and> processed_urls (trace s') =
         processed_urls (trace s) @ filter (\<lambda>u. \<not> urlExists env (storage s) u) urls
     \<and> set (inserted_urls (trace s')) \<subseteq>
         set (inserted_urls (trace s)) \<union> set (filter (\<lambda>u. \<not> urlExists env (storage s) u) urls)
     \<and> set (invoked_keys (trace s')) \<subseteq>
         set (invoked_keys (trace s)) \<union> set (filter (\<lambda>u. \<not> urlExists env (storage s) u) urls)
           \<union> {''AI-extraction''}"
  using assms by (rule scrapeUrls_frame)

text \<open>
  An instance: of three URLs the second is in the storage and the page of the third is
  down; the run returns the results of the first and the third.
\<close>

theorem scrapeUrls_skips_done_items_witness:
  "\<exists>results s'.
     scrapeUrls env_example 3
       [''https://a.example/'', ''https://done.example/'', ''https://down.example/''] state1
       = Some (results, s')
     \<and> map url results = [''https://a.example/'', ''https://down.example/'']
     \<and> processed_urls (trace s') = [''https://a.example/'', ''https://down.example/'']
     \<and> ''https://done.example/'' \<notin> set (invoked_keys (trace s'))"
proof -
  have f: "filter (\<lambda>u. \<not> urlExists env_example (storage state1) u)
       [''https://a.example/'', ''https://done.example/'', ''https://down.example/'']
     = [''https://a.example/'', ''https://down.example/'']"
    by (simp add: env_example_def state1_def)
  have t: "trace state1 = []" by (simp add: state1_def)
  from scrapeUrls_skips_done_items[of 3 env_example
      "[''https://a.example/'', ''https://done.example/'', ''https://down.example/'']" state1]
  show ?thesis unfolding f t by fastforce
qed

lemma windowed_log_Nil [simp]: "windowed_log mc [] = []"
  by (simp add: windowed_log.simps)

lemma windowed_log_window:
  assumes "0 < mc" "brs \<noteq> []" "length brs \<le> mc" "length brs < mc \<longrightarrow> rest = []"
  shows "windowed_log mc (brs @ rest) =
           map Processed (map url brs) @ map Inserted (map url (filter success brs))
           @ (if rest = [] then [] else Paused # windowed_log mc rest)"
proof (cases "rest = []")
  case True
  then show ?thesis using assms by (subst windowed_log.simps) simp
next
  case False
  then have l: "length brs = mc" using assms(3,4) by auto
  then show ?thesis using assms(1,2) False by (subst windowed_log.simps) simp
qed

lemma batch_loop_log:
  assumes mc: "0 < mc"
  shows "batch_loop env mc newUrls i results s = Some (res, s') \<Longrightarrow>
     \<exists>new. res = results @ new \<and> map url new = drop i newUrls
        \<and> milestones (trace s') = milestones (trace s) @ windowed_log mc new"
proof (induction "length newUrls - i" arbitrary: i results s rule: less_induct)
  case less
  show ?case
  proof (cases "i < length newUrls")
    case False
    have "batch_loop env mc newUrls i results s = Some (results, s)"
      using False by (subst batch_loop.simps) simp
    with less.prems have "res = results @ []" "s' = s" by simp_all
    moreover have "map url [] = drop i newUrls" using False by simp
    ultimately show ?thesis by (intro exI[of _ "[]"]) simp
  next
    case True
    obtain results1 s1 where st: "batch_step env mc newUrls i results s = (results1, s1)" by fastforce
    let ?batch = "take mc (drop i newUrls)"
    let ?pause = "if i + mc < length newUrls then [Paused] else []"
    from batch_step_frame[OF st] obtain brs where
      f: "results1 = results @ brs" "map url brs = ?batch"
         "milestones (trace s1) = milestones (trace s) @ map Processed ?batch
                                  @ map Inserted (map url (filter success brs)) @ ?pause"
      by (elim exE conjE)
    have loop: "batch_loop env mc newUrls (i + mc) results1 s1 = Some (res, s')"
      using True st less.prems by (subst (asm) batch_loop.simps) simp
    have less': "length newUrls - (i + mc) < length newUrls - i" using True mc by simp
    from less.hyps[OF less' loop] obtain new' where
      n: "res = results1 @ new'" "map url new' = drop (i + mc) newUrls"
         "milestones (trace s') = milestones (trace s1) @ windowed_log mc new'"
      by (elim exE conjE)
    have lb: "length brs = min mc (length newUrls - i)"
      using arg_cong[OF f(2), of length] by simp
    have ln: "length new' = length newUrls - (i + mc)"
      using arg_cong[OF n(2), of length] by simp
    have ne: "brs \<noteq> []" using lb True mc by auto
    have le: "length brs \<le> mc" using lb by simp
    have sh: "length brs < mc \<longrightarrow> new' = []" using lb ln by auto
    have rest: "new' = [] \<longleftrightarrow> \<not> i + mc < length newUrls" using ln by auto
    have w: "windowed_log mc (brs @ new') =
        map Processed ?batch @ map Inserted (map url (filter success brs))
          @ ?pause @ windowed_log mc new'"
      using windowed_log_window[OF mc ne le sh] rest f(2) by auto
    have "res = results @ (brs @ new')" using n(1) f(1) by simp
    moreover have "map url (brs @ new') = drop i newUrls"
      using f(2) n(2) drop_window[of mc i newUrls] by simp
    moreover have "milestones (trace s') = milestones (trace s) @ windowed_log mc (brs @ new')"
      unfolding n(3) f(3) w by simp
    ultimately show ?thesis by blast
  qed
qed

lemma scrapeUrls_log:
  assumes "0 < mc" "scrapeUrls env mc urls s = Some (results, s')"
  shows "milestones (trace s') = milestones (trace s) @ windowed_log mc results"
proof -
  let ?new = "filter (\<lambda>u. \<not> urlExists env (storage s) u) urls"
  show ?thesis
  proof (cases "?new = []")
    case True
    then have "results = []" "s' = s" using assms(2) by (simp_all add: scrapeUrls_def)
    then show ?thesis by simp
  next
    case False
    then obtain s1 where l: "batch_loop env mc ?new 0 [] s = Some (results, s1)"
      and e: "s' = snd (getRetryStats s1)"
      using assms(2) by (auto simp: scrapeUrls_def Let_def split: option.splits)
    from batch_loop_log[OF assms(1) l] have "milestones (trace s1) = milestones (trace s) @ windowed_log mc results"
      by auto
    then show ?thesis using e by (simp add: getRetryStats_frame)
  qed
qed

text \<open>
  Claim C6, amended. In a window, \<^verbatim>\<open>insertHotel\<close> is called for the successful results
  after every item of the window has completed, in the order of the window, and before
  the pause that precedes the next window; over a whole run the log is that of
  \<open>windowed_log\<close>: window after window, the completions (here in the order in which the
  items are run), then the inserts, then the pause. The results of a run do not depend on
  what \<^verbatim>\<open>insertHotel\<close> does: with any other \<^verbatim>\<open>insertHotel\<close>, one that throws for instance, the
  run returns the same results and ends in the same state but for the storage.
\<close>

theorem saveResults_after_window:
  assumes "0 < maxConcurrent"
  shows "(\<forall>results' s'. batch_step env maxConcurrent newUrls i results s = (results', s') \<longrightarrow>
            (\<exists>batchResults. results' = results @ batchResults
               \<and> map url batchResults = take maxConcurrent (drop i newUrls)
               \<and> milestones (trace s') =
                   milestones (trace s) @ map Processed (take maxConcurrent (drop i newUrls))
                     @ map Inserted (map url (filter success batchResults))
                     @ (if i + maxConcurrent < length newUrls then [Paused] else [])))
       \<and> (\<exists>results s' t'. scrapeUrls env maxConcurrent urls s = Some (results, s')
             \<and> milestones (trace s') = milestones (trace s) @ windowed_log maxConcurrent results
             \<and> scrapeUrls (env\<lparr>insertHotel := ins\<rparr>) maxConcurrent urls s = Some (results, t')
             \<and> same_but_storage s' t')"
proof (intro conjI allI impI)
  fix results' s' assume "batch_step env maxConcurrent newUrls i results s = (results', s')"
  from batch_step_frame[OF this]
  obtain brs where "results' = results @ brs" "map url brs = take maxConcurrent (drop i newUrls)"
    "milestones (trace s') =
       milestones (trace s) @ map Processed (take maxConcurrent (drop i newUrls))
         @ map Inserted (map url (filter success brs))
         @ (if i + maxConcurrent < length newUrls then [Paused] else [])"
    by (elim exE conjE)
  then show "\<exists>batchResults. results' = results @ batchResults
               \<and> map url batchResults = take maxConcurrent (drop i newUrls)
               \<and> milestones (trace s') =
                   milestones (trace s) @ map Processed (take maxConcurrent (drop i newUrls))
                     @ map Inserted (map url (filter success batchResults))
                     @ (if i + maxConcurrent < length newUrls then [Paused] else [])"
    by (intro exI[of _ brs] conjI)
next
  from scrapeUrls_insertHotel[OF assms, of env urls s ins]
  obtain results s' t' where r: "scrapeUrls env maxConcurrent urls s = Some (results, s')"
    "scrapeUrls (env\<lparr>insertHotel := ins\<rparr>) maxConcurrent urls s = Some (results, t')"
    "same_but_storage s' t'"
    by (elim exE conjE)
  from scrapeUrls_log[OF assms r(1)] r
  show "\<exists>results s' t'. scrapeUrls env maxConcurrent urls s = Some (results, s')
             \<and> milestones (trace s') = milestones (trace s) @ windowed_log maxConcurrent results
             \<and> scrapeUrls (env\<lparr>insertHotel := ins\<rparr>) maxConcurrent urls s = Some (results, t')
             \<and> same_but_storage s' t'"
    by (intro exI[of _ results] exI[of _ s'] exI[of _ t'] conjI)
qed

subsection \<open>Runs whose items all succeed\<close>

lemma host_ab:
  "extractDomain host_example ''https://a.example/'' = ''a.example''"
  "extractDomain host_example ''https://b.example/'' = ''b.example''"
  "extractDomain host_example ''AI-extraction'' = ''unknown''"
  by (simp_all add: extractDomain_def host_example_def)

lemma list_all_update:
  "list_all P al \<Longrightarrow> P (k, v) \<Longrightarrow> list_all P (AList.update k v al)"
  by (induction al) auto

lemma list_all_map_entry:
  "list_all P al \<Longrightarrow> (\<And>v. P (k, f v)) \<Longrightarrow> list_all P (AList.map_entry k f al)"
  by (induction al) auto

lemma healthy_entry:
  assumes "healthy s"
  shows "\<not> open_at_entry hostname u s" and "healthy (entry_state hostname u s)"
proof -
  let ?dm = "extractDomain hostname u"
  let ?g = "getCircuitBreaker ?dm (circuitBreakers s)"
  have all: "list_all (\<lambda>(d, cb). failures cb = 0) (circuitBreakers s)"
    using assms by (simp add: healthy_def)
  have f0: "failures (fst ?g) = 0"
  proof (cases "map_of (circuitBreakers s) ?dm")
    case None
    then show ?thesis by (simp add: getCircuitBreaker_def new_CircuitBreaker_def)
  next
    case (Some cb)
    then have "(?dm, cb) \<in> set (circuitBreakers s)" by (rule map_of_SomeD)
    with all have "failures cb = 0" by (auto simp: list_all_iff)
    with Some show ?thesis by (simp add: getCircuitBreaker_def)
  qed
  have g2: "list_all (\<lambda>(d, cb). failures cb = 0) (snd ?g)"
    using all by (simp add: getCircuitBreaker_def new_CircuitBreaker_def split: option.splits)
  have io: "isOpen (clock (world s)) (fst ?g) = (False, fst ?g)"
    using f0 by (simp add: isOpen_def failureThreshold_def)
  show "\<not> open_at_entry hostname u s" using io by (simp add: open_at_entry_def)
  show "healthy (entry_state hostname u s)"
    using list_all_update[OF g2, of ?dm "fst ?g"] f0 io
    by (simp add: healthy_def entry_state_def Let_def)
qed

lemma executeWithRetry_first_success:
  assumes "healthy s" "1 \<le> maxAttempts cfg" "op (world s) = (Inr v, w)"
  shows "\<exists>s'. executeWithRetry hostname cfg op u ctx s = (Inr v, s') \<and> healthy s'
            \<and> trace s' = trace s @ [Invoked u]"
proof -
  let ?s0 = "entry_state hostname u s"
  let ?dm = "extractDomain hostname u"
  let ?s' = "on_breaker ?dm recordSuccess (?s0\<lparr>world := w, trace := trace ?s0 @ [Invoked u]\<rparr>)"
  note h = healthy_entry[OF assms(1), of hostname u]
  have ow: "op (world ?s0) = (Inr v, w)" using assms(3) by simp
  have "attempt_loop cfg op u ctx ?dm 1 None ?s0 = (Inr v, ?s')"
    using attempt_loop_success[where op = op and s = ?s0 and a = 1, OF assms(2) ow] by simp
  then have e: "executeWithRetry hostname cfg op u ctx s = (Inr v, ?s')"
    using h(1) by (simp add: executeWithRetry_unfold)
  have "list_all (\<lambda>(d, cb). failures cb = 0) (circuitBreakers ?s0)"
    using h(2) by (simp add: healthy_def)
  then have "healthy ?s'"
    using list_all_map_entry[of "\<lambda>(d, cb). failures cb = 0" "circuitBreakers ?s0" ?dm recordSuccess]
    by (simp add: healthy_def on_breaker_def recordSuccess_def)
  moreover have "trace ?s' = trace s @ [Invoked u]" by simp
  ultimately show ?thesis using e by blast
qed

lemma processUrl_example_success:
  assumes "healthy s" "u \<noteq> ''https://down.example/''"
  shows "\<exists>r s'. processUrl env_example u wid s = (r, s') \<and> success r \<and> url r = u \<and> healthy s'"
proof -
  have m: "1 \<le> maxAttempts workerConfig" by (simp add: workerConfig_def)
  have o1: "scrapeOperation env_example u (world s) =
      (Inr ''<html>hotel</html>'', (world s)\<lparr>clock := clock (world s) + 10\<rparr>)"
    using assms(2) by (simp add: env_example_def)
  from executeWithRetry_first_success[where op = "scrapeOperation env_example u" and s = s
      and hostname = "hostname_of env_example" and u = u and ctx = "''scraping''", OF assms(1) m o1]
  obtain s1 where s1: "scrapeUrl env_example u s = (Inr ''<html>hotel</html>'', s1)" "healthy s1"
    by (auto simp: scrapeUrl_def)
  have o2: "extractOperation env_example ''<html>hotel</html>'' (world s1) =
      (Inr (Some features_example), (world s1)\<lparr>clock := clock (world s1) + 5\<rparr>)"
    by (simp add: env_example_def)
  from executeWithRetry_first_success[where op = "extractOperation env_example ''<html>hotel</html>''"
      and s = s1 and hostname = "hostname_of env_example" and u = "''AI-extraction''"
      and ctx = "''feature extraction''", OF s1(2) m o2]
  obtain s2 where s2: "extractFeatures env_example ''<html>hotel</html>'' s1 = (Inr (Some features_example), s2)"
    "healthy s2"
    by (auto simp: extractFeatures_def)
  have "processUrl env_example u wid s =
     (\<lparr>url = u, success = True, data = Some features_example, error = None,
       timestamp = clock (world s)\<rparr>, s2\<lparr>trace := trace s2 @ [Processed u]\<rparr>)"
    using s1(1) s2(1) by (simp add: processUrl_def Let_def)
  moreover have "healthy (s2\<lparr>trace := trace s2 @ [Processed u]\<rparr>)"
    using s2(2) by (simp add: healthy_def)
  ultimately show ?thesis by simp
qed

lemma processBatch_example_success:
  "healthy s \<Longrightarrow> ''https://down.example/'' \<notin> set batch \<Longrightarrow>
   \<exists>rs s'. processBatch env_example mc i idx batch s = (rs, s') \<and> list_all success rs \<and> healthy s'"
proof (induction batch arbitrary: idx s)
  case Nil
  then show ?case by simp
next
  case (Cons u us)
  have u: "u \<noteq> ''https://down.example/''" using Cons.prems(2) by auto
  from processUrl_example_success[OF Cons.prems(1) u, of "(i + idx) mod mc"]
  obtain r s1 where p: "processUrl env_example u ((i + idx) mod mc) s = (r, s1)" "success r" "healthy s1"
    by auto
  have "''https://down.example/'' \<notin> set us" using Cons.prems(2) by simp
  from Cons.IH[OF p(3) this, of "idx + 1"]
  obtain rs s2 where b: "processBatch env_example mc i (idx + 1) us s1 = (rs, s2)"
    "list_all success rs" "healthy s2"
    by auto
  have "processBatch env_example mc i idx (u # us) s = (r # rs, s2)" using p(1) b(1) by simp
  then show ?case using p(2) b(2,3) by simp
qed

lemma batch_step_example_success:
  assumes "healthy s" "''https://down.example/'' \<notin> set newUrls" "list_all success results"
  shows "\<exists>rs s'. batch_step env_example mc newUrls i results s = (rs, s')
           \<and> list_all success rs \<and> healthy s'"
proof -
  let ?batch = "take mc (drop i newUrls)"
  have "''https://down.example/'' \<notin> set ?batch"
    using assms(2) by (meson in_set_dropD in_set_takeD)
  from processBatch_example_success[OF assms(1) this, of mc i 0]
  obtain brs s1 where p: "processBatch env_example mc i 0 ?batch s = (brs, s1)"
    "list_all success brs" "healthy s1"
    by auto
  have h2: "healthy (saveResults env_example brs s1)"
    using p(3) saveResults_frame[of env_example brs s1] by (simp add: healthy_def)
  obtain rs s' where st: "batch_step env_example mc newUrls i results s = (rs, s')" by fastforce
  then have "rs = results @ brs" "circuitBreakers s' = circuitBreakers (saveResults env_example brs s1)"
    using p(1) by (auto simp: batch_step_def Let_def split: if_splits)
  then have "list_all success rs" "healthy s'"
    using assms(3) p(2) h2 by (simp_all add: healthy_def)
  with st show ?thesis by blast
qed

lemma batch_loop_example_success:
  assumes mc: "0 < mc" and nd: "''https://down.example/'' \<notin> set newUrls"
  shows "healthy s \<Longrightarrow> list_all success results \<Longrightarrow>
     batch_loop env_example mc newUrls i results s = Some (res, s') \<Longrightarrow> list_all success res"
proof (induction "length newUrls - i" arbitrary: i results s rule: less_induct)
  case less
  show ?case
  proof (cases "i < length newUrls")
    case False
    have "batch_loop env_example mc newUrls i results s = Some (results, s)"
      using False by (subst batch_loop.simps) simp
    with less.prems show ?thesis by simp
  next
    case True
    from batch_step_example_success[OF less.prems(1) nd less.prems(2), of mc i]
    obtain rs s1 where st: "batch_step env_example mc newUrls i results s = (rs, s1)"
      "list_all success rs" "healthy s1"
      by auto
    have loop: "batch_loop env_example mc newUrls (i + mc) rs s1 = Some (res, s')"
      using True st(1) less.prems(3) by (subst (asm) batch_loop.simps) simp
    have less': "length newUrls - (i + mc) < length newUrls - i" using True mc by simp
    from less.hyps[OF less' st(3) st(2) loop] show ?thesis .
  qed
qed

text \<open>
  Claim C6 as stated fails: in a window of two items that both succeed, the first result
  is saved only after the second item has completed.
\<close>

theorem insertHotel_waits_for_window:
  "milestones (trace (snd (batch_step env_example 3 [''https://a.example/'', ''https://b.example/''] 0 [] state1)))
     = [Processed ''https://a.example/'', Processed ''https://b.example/'',
        Inserted ''https://a.example/'', Inserted ''https://b.example/'']"
proof -
  let ?a = "''https://a.example/''" and ?b = "''https://b.example/''"
  have h0: "healthy state1" by (simp add: healthy_def state1_def)
  from processUrl_example_success[OF h0, of ?a 0]
  obtain ra s1 where a: "processUrl env_example ?a 0 state1 = (ra, s1)" "success ra" "url ra = ?a" "healthy s1"
    by auto
  from processUrl_example_success[OF a(4), of ?b 1]
  obtain rb s2 where b: "processUrl env_example ?b 1 s1 = (rb, s2)" "success rb" "url rb = ?b"
    by auto
  have pb: "processBatch env_example 3 0 0 [?a, ?b] state1 = ([ra, rb], s2)"
    using a(1) b(1) by simp
  obtain results' s' where st: "batch_step env_example 3 [?a, ?b] 0 [] state1 = (results', s')"
    by fastforce
  have r: "results' = [ra, rb]" using st pb by (auto simp: batch_step_def Let_def)
  from batch_step_frame[OF st] obtain brs where
    f: "results' = [] @ brs"
       "milestones (trace s') = milestones (trace state1) @ map Processed (take 3 (drop 0 [?a, ?b]))
          @ map Inserted (map url (filter success brs))
          @ (if 0 + 3 < length [?a, ?b] then [Paused] else [])"
    by (elim exE conjE)
  have "brs = [ra, rb]" using f(1) r by simp
  then have "milestones (trace s') = [Processed ?a, Processed ?b, Inserted ?a, Inserted ?b]"
    using f(2) a(2,3) b(2,3) by (simp add: state1_def)
  then show ?thesis using st by simp
qed

text \<open>
  An instance: two URLs in windows of one item, whose operations succeed. The first
  result is saved before the pause, the second item is processed after it; with a storage
  whose \<^verbatim>\<open>insertHotel\<close> throws the run returns the same results.
\<close>

theorem saveResults_after_window_witness:
  "(\<exists>batchResults.
       fst (batch_step env_example 1 [''https://a.example/'', ''https://b.example/''] 0 [] state1)
         = [] @ batchResults
     \<and> map url batchResults = [''https://a.example/'']
     \<and> milestones (trace (snd (batch_step env_example 1
            [''https://a.example/'', ''https://b.example/''] 0 [] state1)))
         = [Processed ''https://a.example/'']
           @ map Inserted (map url (filter success batchResults)) @ [Paused])
   \<and> (\<exists>results s' t'.
        scrapeUrls env_example 1 [''https://a.example/'', ''https://b.example/''] state1
          = Some (results, s')
      \<and> milestones (trace s') =
          [Processed ''https://a.example/'', Inserted ''https://a.example/'', Paused,
           Processed ''https://b.example/'', Inserted ''https://b.example/'']
      \<and> scrapeUrls (env_example\<lparr>insertHotel := failing_insertHotel\<rparr>) 1
            [''https://a.example/'', ''https://b.example/''] state1 = Some (results, t')
      \<and> same_but_storage s' t')"
proof -
  let ?a = "''https://a.example/''" and ?b = "''https://b.example/''"
  let ?us = "[?a, ?b]"
  obtain results' s' where st: "batch_step env_example 1 ?us 0 [] state1 = (results', s')"
    by fastforce
  have pos: "0 < (1::nat)" by simp
  note T = saveResults_after_window[OF pos, of env_example ?us 0 "[]" state1 ?us failing_insertHotel]
  from T st have "\<exists>batchResults. results' = [] @ batchResults
               \<and> map url batchResults = take 1 (drop 0 ?us)
               \<and> milestones (trace s') =
                   milestones (trace state1) @ map Processed (take 1 (drop 0 ?us))
                     @ map Inserted (map url (filter success batchResults))
                     @ (if 0 + 1 < length ?us then [Paused] else [])"
    by blast
  then obtain brs where b: "results' = [] @ brs" "map url brs = take 1 (drop 0 ?us)"
    "milestones (trace s') =
       milestones (trace state1) @ map Processed (take 1 (drop 0 ?us))
         @ map Inserted (map url (filter success brs))
         @ (if 0 + 1 < length ?us then [Paused] else [])"
    by (elim exE conjE)
  have "fst (batch_step env_example 1 ?us 0 [] state1) = [] @ brs
     \<and> map url brs = [?a]
     \<and> milestones (trace (snd (batch_step env_example 1 ?us 0 [] state1)))
         = [Processed ?a] @ map Inserted (map url (filter success brs)) @ [Paused]"
    using st b by (simp add: state1_def del: map_map)
  then have 1: "\<exists>batchResults. fst (batch_step env_example 1 ?us 0 [] state1) = [] @ batchResults
     \<and> map url batchResults = [?a]
     \<and> milestones (trace (snd (batch_step env_example 1 ?us 0 [] state1)))
         = [Processed ?a] @ map Inserted (map url (filter success batchResults)) @ [Paused]"
    by (intro exI[of _ brs])
  from T obtain results s2 t2 where r: "scrapeUrls env_example 1 ?us state1 = Some (results, s2)"
    "milestones (trace s2) = milestones (trace state1) @ windowed_log 1 results"
    "scrapeUrls (env_example\<lparr>insertHotel := failing_insertHotel\<rparr>) 1 ?us state1 = Some (results, t2)"
    "same_but_storage s2 t2"
    by (elim exE conjE)
  have new: "filter (\<lambda>u. \<not> urlExists env_example (storage state1) u) ?us = ?us"
    by (simp add: env_example_def state1_def)
  from scrapeUrls_frame[OF pos, of env_example ?us state1] r(1)
  have urls: "map url results = ?us" unfolding new by auto
  obtain s1 where l: "batch_loop env_example 1 ?us 0 [] state1 = Some (results, s1)"
    using r(1) new by (auto simp: scrapeUrls_def Let_def split: option.splits)
  have "healthy state1" by (simp add: healthy_def state1_def)
  from batch_loop_example_success[OF pos _ this _ l]
  have ok: "list_all success results" by simp
  from urls obtain r1 r2 where rs: "results = [r1, r2]" "url r1 = ?a" "url r2 = ?b"
    by (auto simp: map_eq_Cons_conv)
  have s12: "success r1" "success r2" using ok rs(1) by simp_all
  have "windowed_log 1 [r1, r2] = [Processed ?a, Inserted ?a, Paused, Processed ?b, Inserted ?b]"
    using rs(2,3) s12 by (simp add: windowed_log.simps)
  then have "milestones (trace s2) = [Processed ?a, Inserted ?a, Paused, Processed ?b, Inserted ?b]"
    using r(2) rs(1) by (simp add: state1_def)
  with r have 2: "\<exists>results s' t'. scrapeUrls env_example 1 ?us state1 = Some (results, s')
      \<and> milestones (trace s') = [Processed ?a, Inserted ?a, Paused, Processed ?b, Inserted ?b]
      \<and> scrapeUrls (env_example\<lparr>insertHotel := failing_insertHotel\<rparr>) 1 ?us state1 = Some (results, t')
      \<and> same_but_storage s' t'"
    by (intro exI[of _ results] exI[of _ s2] exI[of _ t2] conjI)
  from 1 2 show ?thesis by (rule conjI)
qed

end
